theory Spec2Isabelle
  imports Main "HOL-Library.Word" "HOL-Library.Monad_Syntax"
begin

chapter \<open>The model\<close>

section \<open>Data model of the memory pool (txmempool.cpp)\<close>

text \<open>
  A transaction id (\<open>uint256\<close>) is a natural number. \<open>CAmount\<close> is a signed 64-bit
  count whose overflow is undefined behaviour in the source; it is an \<open>int\<close> here.
  \<open>uint64_t\<close> and \<open>size_t\<close> are 64-bit words, so that \<open>+=\<close> and \<open>-=\<close> wrap as they
  do in the source. An outpoint is the pair of the spent transaction's id and the
  output index.
\<close>

type_synonym uint256 = nat

type_synonym CAmount = int

type_synonym uint64 = "64 word"

type_synonym COutPoint = "uint256 \<times> nat"

record CTxIn =
  prevout :: COutPoint

record CTxOut =
  nValue :: CAmount

record CTransaction =
  GetHash :: uint256
  vin :: "CTxIn list"
  vout :: "CTxOut list"

text \<open>
  The mempool entry. \<open>dPriority\<close> (a double) is left out: no function modelled below
  reads or writes it.
\<close>

record CTxMemPoolEntry =
  tx :: CTransaction
  nFee :: CAmount
  nTxSize :: uint64
  nModSize :: uint64
  nUsageSize :: uint64
  nTime :: int
  nHeight :: nat
  hadNoDependencies :: bool
  nCountWithDescendants :: uint64
  nSizeWithDescendants :: uint64
  nFeesWithDescendants :: CAmount

text \<open>
  Modelled from the spec: \<open>CTxMemPoolEntry::IsDirty\<close> is an inline accessor of
  txmempool.h, which is not among the sources. The entry has no separate flag field:
  \<open>SetDirty\<close> (txmempool.cpp) records the flag by zeroing \<open>nCountWithDescendants\<close>, the
  only field it sets to a value no constructed entry has, and \<open>IsDirty\<close> reads it back.
\<close>

definition IsDirty :: "CTxMemPoolEntry \<Rightarrow> bool" where
  "IsDirty e = (nCountWithDescendants e = 0)"

definition SetDirty :: "CTxMemPoolEntry \<Rightarrow> CTxMemPoolEntry" where
  "SetDirty e = e\<lparr>nCountWithDescendants := 0,
                  nSizeWithDescendants := nTxSize e,
                  nFeesWithDescendants := nFee e\<rparr>"

definition UpdateState :: "CTxMemPoolEntry \<Rightarrow> uint64 \<Rightarrow> CAmount \<Rightarrow> uint64 \<Rightarrow> CTxMemPoolEntry" where
  "UpdateState e modifySize modifyFee modifyCount =
     (if \<not> IsDirty e
      then e\<lparr>nSizeWithDescendants := nSizeWithDescendants e + modifySize,
             nFeesWithDescendants := nFeesWithDescendants e + modifyFee,
             nCountWithDescendants := nCountWithDescendants e + modifyCount\<rparr>
      else e)"

text \<open>The constructor \<open>CTxMemPoolEntry(tx, fee, time, priority, height, poolHasNoInputsOf)\<close>;
  the three sizes, which the source computes from the serialised transaction, are arguments.\<close>

definition mkEntry :: "CTransaction \<Rightarrow> CAmount \<Rightarrow> int \<Rightarrow> nat \<Rightarrow> bool \<Rightarrow> uint64 \<Rightarrow> uint64 \<Rightarrow> uint64
                       \<Rightarrow> CTxMemPoolEntry" where
  "mkEntry t fee time height poolHasNoInputsOf txSize modSize usageSize =
     \<lparr>tx = t, nFee = fee, nTxSize = txSize, nModSize = modSize, nUsageSize = usageSize,
      nTime = time, nHeight = height, hadNoDependencies = poolHasNoInputsOf,
      nCountWithDescendants = 1, nSizeWithDescendants = txSize, nFeesWithDescendants = fee\<rparr>"

section \<open>The pool and its graph (txmempool.cpp)\<close>

text \<open>
  A \<open>txiter\<close> is an iterator into \<open>mapTx\<close>; entries are unique by transaction id and
  the iterator sets are ordered by that id (\<open>CompareIteratorByHash\<close>), so an iterator is
  modelled by the id it points to, a \<open>std::set\<close> by a set, and a loop over a
  \<open>std::set\<close> by a loop over \<open>sorted_list_of_set\<close>. Dereferencing an iterator is a
  lookup in \<open>mapTx\<close>. A function returns \<open>None\<close> where the source fails an \<open>assert\<close> or
  dereferences an end iterator, or where a loop does not end.

  \<open>CInPoint\<close> holds a pointer to the spending transaction and the input index; the
  pointer is modelled by the transaction it points to. The fee estimator
  (\<open>minerPolicyEstimator\<close>) is an external collaborator and is not part of the state.
  The priority delta is a double: its type is the parameter \<open>'d\<close>, of which only
  \<open>0\<close> and \<open>+\<close> are used.
\<close>

record TxLinks =
  parents :: "uint256 set"
  children :: "uint256 set"

type_synonym CInPoint = "CTransaction \<times> nat"

record 'd CTxMemPool =
  mapTx :: "uint256 \<rightharpoonup> CTxMemPoolEntry"
  mapLinks :: "uint256 \<rightharpoonup> TxLinks"
  mapNextTx :: "COutPoint \<rightharpoonup> CInPoint"
  mapDeltas :: "uint256 \<rightharpoonup> 'd \<times> CAmount"
  totalTxSize :: uint64
  cachedInnerUsage :: uint64
  nTransactionsUpdated :: "32 word"

text \<open>
  Modelled from the spec: memusage.h is not among the sources. Its results depend on the
  platform's allocator and pointer size, so they are parameters: the malloc usage of one
  \<open>mapTx\<close> element (\<open>MallocUsage(sizeof(CTxMemPoolEntry) + 9 * sizeof(void*))\<close>) and of
  one node of each container. \<open>IncrementalDynamicUsage\<close> of a container is the usage of
  one node, \<open>DynamicUsage\<close> is that times the number of elements.
\<close>

record memusage =
  muEntry :: uint64
  muSetNode :: uint64
  muNextTxNode :: uint64
  muDeltasNode :: uint64
  muLinksNode :: uint64

definition DynamicUsage_set :: "memusage \<Rightarrow> uint256 set \<Rightarrow> uint64" where
  "DynamicUsage_set mu S = muSetNode mu * of_nat (card S)"

definition nNoLimit :: uint64 where
  "nNoLimit = - 1"

text \<open>A loop whose body can fail: \<open>BOOST_FOREACH\<close> over a sequence, threading the state.\<close>

fun foreach :: "('a \<Rightarrow> 's \<Rightarrow> 's option) \<Rightarrow> 'a list \<Rightarrow> 's \<Rightarrow> 's option" where
  "foreach f [] s = Some s"
| "foreach f (x # xs) s = (case f x s of None \<Rightarrow> None | Some s' \<Rightarrow> foreach f xs s')"

text \<open>\<open>mapLinks[entry]\<close>: \<open>operator[]\<close> of \<open>std::map\<close> makes a default value where the key is absent.\<close>

definition links_at :: "'d CTxMemPool \<Rightarrow> uint256 \<Rightarrow> TxLinks" where
  "links_at p entry =
     (case mapLinks p entry of None \<Rightarrow> \<lparr>parents = {}, children = {}\<rparr> | Some l \<Rightarrow> l)"

definition UpdateChild :: "memusage \<Rightarrow> 'd CTxMemPool \<Rightarrow> uint256 \<Rightarrow> uint256 \<Rightarrow> bool \<Rightarrow> 'd CTxMemPool" where
  "UpdateChild mu p entry child add =
     (let l = links_at p entry in
      if add \<and> child \<notin> children l
      then p\<lparr>mapLinks := (mapLinks p)(entry \<mapsto> l\<lparr>children := insert child (children l)\<rparr>),
             cachedInnerUsage := cachedInnerUsage p + muSetNode mu\<rparr>
      else if \<not> add \<and> child \<in> children l
      then p\<lparr>mapLinks := (mapLinks p)(entry \<mapsto> l\<lparr>children := children l - {child}\<rparr>),
             cachedInnerUsage := cachedInnerUsage p - muSetNode mu\<rparr>
      else p\<lparr>mapLinks := (mapLinks p)(entry \<mapsto> l)\<rparr>)"

definition UpdateParent :: "memusage \<Rightarrow> 'd CTxMemPool \<Rightarrow> uint256 \<Rightarrow> uint256 \<Rightarrow> bool \<Rightarrow> 'd CTxMemPool" where
  "UpdateParent mu p entry parent add =
     (let l = links_at p entry in
      if add \<and> parent \<notin> parents l
      then p\<lparr>mapLinks := (mapLinks p)(entry \<mapsto> l\<lparr>parents := insert parent (parents l)\<rparr>),
             cachedInnerUsage := cachedInnerUsage p + muSetNode mu\<rparr>
      else if \<not> add \<and> parent \<in> parents l
      then p\<lparr>mapLinks := (mapLinks p)(entry \<mapsto> l\<lparr>parents := parents l - {parent}\<rparr>),
             cachedInnerUsage := cachedInnerUsage p - muSetNode mu\<rparr>
      else p\<lparr>mapLinks := (mapLinks p)(entry \<mapsto> l)\<rparr>)"

definition GetMemPoolParents :: "'d CTxMemPool \<Rightarrow> uint256 \<Rightarrow> uint256 set option" where
  "GetMemPoolParents p entry =
     (if mapTx p entry = None then None else map_option parents (mapLinks p entry))"

definition GetMemPoolChildren :: "'d CTxMemPool \<Rightarrow> uint256 \<Rightarrow> uint256 set option" where
  "GetMemPoolChildren p entry =
     (if mapTx p entry = None then None else map_option children (mapLinks p entry))"

subsection \<open>CalculateMemPoolAncestors\<close>

text \<open>
  \<open>errString\<close> is formatted from the limit and, for two of the messages, the id of the
  ancestor that exceeded it; the datatype names the message and keeps that id.
\<close>

datatype AncestorError =
    TooManyUnconfirmedParents
  | ExceedsDescendantSizeLimit uint256
  | TooManyDescendants uint256
  | ExceedsAncestorSizeLimit
  | TooManyUnconfirmedAncestors

text \<open>The scan of \<open>tx.vin\<close> for parents that are in the pool.\<close>

fun scan_vin :: "'d CTxMemPool \<Rightarrow> uint64 \<Rightarrow> CTxIn list \<Rightarrow> uint256 set \<Rightarrow> AncestorError + uint256 set" where
  "scan_vin p limitAncestorCount [] parentHashes = Inr parentHashes"
| "scan_vin p limitAncestorCount (txin # rest) parentHashes =
     (case mapTx p (fst (prevout txin)) of
        None \<Rightarrow> scan_vin p limitAncestorCount rest parentHashes
      | Some piter \<Rightarrow>
          (let parentHashes' = insert (fst (prevout txin)) parentHashes in
           if of_nat (card parentHashes') + 1 > limitAncestorCount
           then Inl TooManyUnconfirmedParents
           else scan_vin p limitAncestorCount rest parentHashes'))"

text \<open>The loop over \<open>setMemPoolParents\<close> of one staged ancestor.\<close>

fun stage_parents :: "uint256 set \<Rightarrow> uint64 \<Rightarrow> uint256 list \<Rightarrow> uint256 set \<Rightarrow> AncestorError + uint256 set" where
  "stage_parents setAncestors limitAncestorCount [] stageParentSet = Inr stageParentSet"
| "stage_parents setAncestors limitAncestorCount (phash # rest) stageParentSet =
     (let stageParentSet' = (if phash \<notin> setAncestors then insert phash stageParentSet else stageParentSet) in
      if of_nat (card stageParentSet') + of_nat (card setAncestors) + 1 > limitAncestorCount
      then Inl TooManyUnconfirmedAncestors
      else stage_parents setAncestors limitAncestorCount rest stageParentSet')"

text \<open>The loop over \<open>parentHashes\<close>; the state is \<open>totalSizeWithAncestors\<close> and \<open>stageParentSet\<close>.\<close>

fun visit_stage :: "'d CTxMemPool \<Rightarrow> CTxMemPoolEntry \<Rightarrow> uint256 set \<Rightarrow> uint64 \<Rightarrow> uint64 \<Rightarrow> uint64 \<Rightarrow> uint64
     \<Rightarrow> uint256 list \<Rightarrow> uint64 \<times> uint256 set \<Rightarrow> (AncestorError + uint64 \<times> uint256 set) option" where
  "visit_stage p entry setAncestors lac las ldc lds [] st = Some (Inr st)"
| "visit_stage p entry setAncestors lac las ldc lds (stageit # rest) (totalSizeWithAncestors, stageParentSet) =
     (case mapTx p stageit of
        None \<Rightarrow> None
      | Some se \<Rightarrow>
          (let totalSizeWithAncestors' = totalSizeWithAncestors + nTxSize se in
           if nSizeWithDescendants se + nTxSize entry > lds
           then Some (Inl (ExceedsDescendantSizeLimit (GetHash (tx se))))
           else if nCountWithDescendants se + 1 > ldc
           then Some (Inl (TooManyDescendants (GetHash (tx se))))
           else if totalSizeWithAncestors' > las
           then Some (Inl ExceedsAncestorSizeLimit)
           else (case GetMemPoolParents p stageit of
                   None \<Rightarrow> None
                 | Some setMemPoolParents \<Rightarrow>
                     (case stage_parents setAncestors lac (sorted_list_of_set setMemPoolParents) stageParentSet of
                        Inl err \<Rightarrow> Some (Inl err)
                      | Inr stageParentSet' \<Rightarrow>
                          visit_stage p entry setAncestors lac las ldc lds rest
                            (totalSizeWithAncestors', stageParentSet')))))"

text \<open>The \<open>while (!parentHashes.empty())\<close> loop. The result is the error, if any, and \<open>setAncestors\<close>.\<close>

partial_function (option) ancestors_loop ::
  "'d CTxMemPool \<Rightarrow> CTxMemPoolEntry \<Rightarrow> uint64 \<Rightarrow> uint64 \<Rightarrow> uint64 \<Rightarrow> uint64
     \<Rightarrow> uint256 set \<Rightarrow> uint256 set \<Rightarrow> uint64 \<Rightarrow> (AncestorError option \<times> uint256 set) option" where
  "ancestors_loop p entry lac las ldc lds parentHashes setAncestors totalSizeWithAncestors =
     (if parentHashes = {} then Some (None, setAncestors)
      else (case visit_stage p entry (setAncestors \<union> parentHashes) lac las ldc lds
                   (sorted_list_of_set parentHashes) (totalSizeWithAncestors, {}) of
              None \<Rightarrow> None
            | Some (Inl err) \<Rightarrow> Some (Some err, setAncestors \<union> parentHashes)
            | Some (Inr (totalSizeWithAncestors', stageParentSet)) \<Rightarrow>
                ancestors_loop p entry lac las ldc lds stageParentSet (setAncestors \<union> parentHashes)
                  totalSizeWithAncestors'))"

text \<open>
  \<open>CalculateMemPoolAncestors(entry, setAncestors, limitAncestorCount, limitAncestorSize,
  limitDescendantCount, limitDescendantSize, errString)\<close>: the first component of the result
  is \<open>None\<close> where the source returns true, and the error where it returns false.
\<close>

definition CalculateMemPoolAncestors ::
  "'d CTxMemPool \<Rightarrow> CTxMemPoolEntry \<Rightarrow> uint256 set \<Rightarrow> uint64 \<Rightarrow> uint64 \<Rightarrow> uint64 \<Rightarrow> uint64
     \<Rightarrow> (AncestorError option \<times> uint256 set) option" where
  "CalculateMemPoolAncestors p entry setAncestors limitAncestorCount limitAncestorSize
       limitDescendantCount limitDescendantSize =
     (case scan_vin p limitAncestorCount (vin (tx entry)) {} of
        Inl err \<Rightarrow> Some (Some err, setAncestors)
      | Inr parentHashes \<Rightarrow>
          ancestors_loop p entry limitAncestorCount limitAncestorSize limitDescendantCount
            limitDescendantSize parentHashes setAncestors (nTxSize entry))"

subsection \<open>Adding and removing entries\<close>

definition UpdateAncestorsOf :: "memusage \<Rightarrow> 'd CTxMemPool \<Rightarrow> bool \<Rightarrow> uint256 \<Rightarrow> uint256 set \<Rightarrow> 'd CTxMemPool option" where
  "UpdateAncestorsOf mu p add hash setAncestors =
     do {
       parentHashes \<leftarrow> GetMemPoolParents p hash;
       p1 \<leftarrow> foreach (\<lambda>phash q. if mapTx q phash = None then None
                                else Some (UpdateChild mu q phash hash add))
               (sorted_list_of_set parentHashes) p;
       it \<leftarrow> mapTx p1 hash;
       foreach (\<lambda>ancestorHash q.
                  case mapTx q ancestorHash of
                    None \<Rightarrow> None
                  | Some updateIt \<Rightarrow>
                      Some (q\<lparr>mapTx := (mapTx q)(ancestorHash \<mapsto>
                              UpdateState updateIt ((if add then 1 else - 1) * nTxSize it)
                                ((if add then 1 else - 1) * nFee it) (if add then 1 else - 1))\<rparr>))
         (sorted_list_of_set setAncestors) p1
     }"

definition UpdateChildrenForRemoval :: "memusage \<Rightarrow> 'd CTxMemPool \<Rightarrow> uint256 \<Rightarrow> 'd CTxMemPool option" where
  "UpdateChildrenForRemoval mu p hash =
     do {
       setMemPoolChildren \<leftarrow> GetMemPoolChildren p hash;
       foreach (\<lambda>updateIt q. if mapTx q updateIt = None then None
                             else Some (UpdateParent mu q updateIt hash False))
         (sorted_list_of_set setMemPoolChildren) p
     }"

definition UpdateForRemoveFromMempool :: "memusage \<Rightarrow> 'd CTxMemPool \<Rightarrow> uint256 set \<Rightarrow> 'd CTxMemPool option" where
  "UpdateForRemoveFromMempool mu p hashesToRemove =
     do {
       p1 \<leftarrow> foreach (\<lambda>removeHash q.
                 do {
                   entry \<leftarrow> mapTx q removeHash;
                   r \<leftarrow> CalculateMemPoolAncestors q entry {} nNoLimit nNoLimit nNoLimit nNoLimit;
                   UpdateAncestorsOf mu q False removeHash (snd r)
                 })
               (sorted_list_of_set hashesToRemove) p;
       foreach (\<lambda>removeHash q. UpdateChildrenForRemoval mu q removeHash)
         (sorted_list_of_set hashesToRemove) p1
     }"

text \<open>The four-argument \<open>addUnchecked\<close>; \<open>mapTx.insert\<close> and \<open>mapLinks.insert\<close> keep an
  element that is already there.\<close>

definition addUnchecked_anc ::
  "memusage \<Rightarrow> 'd CTxMemPool \<Rightarrow> uint256 \<Rightarrow> CTxMemPoolEntry \<Rightarrow> uint256 set \<Rightarrow> bool \<Rightarrow> 'd CTxMemPool option" where
  "addUnchecked_anc mu p hash entry setAncestors fCurrentEstimate =
     (let newit = GetHash (tx entry);
          p1 = p\<lparr>mapTx := (if mapTx p newit = None then (mapTx p)(newit \<mapsto> entry) else mapTx p),
                 mapLinks := (if mapLinks p newit = None
                              then (mapLinks p)(newit \<mapsto> \<lparr>parents = {}, children = {}\<rparr>)
                              else mapLinks p),
                 cachedInnerUsage := cachedInnerUsage p + nUsageSize entry\<rparr>
      in do {
        e \<leftarrow> mapTx p1 newit;
        let p2 = p1\<lparr>mapNextTx :=
                       fold (\<lambda>i m. m(prevout (vin (tx e) ! i) \<mapsto> (tx e, i)))
                         [0 ..< length (vin (tx e))] (mapNextTx p1)\<rparr>;
        let setParentTransactions = (\<lambda>txin. fst (prevout txin)) ` set (vin (tx e));
        let p3 = fold (\<lambda>phash q. if mapTx q phash \<noteq> None then UpdateParent mu q newit phash True else q)
                   (sorted_list_of_set setParentTransactions) p2;
        p4 \<leftarrow> UpdateAncestorsOf mu p3 True hash setAncestors;
        Some (p4\<lparr>nTransactionsUpdated := nTransactionsUpdated p4 + 1,
                 totalTxSize := totalTxSize p4 + nTxSize entry\<rparr>)
      })"

text \<open>The three-argument \<open>addUnchecked\<close>; the result of \<open>CalculateMemPoolAncestors\<close> is not read.\<close>

definition addUnchecked ::
  "memusage \<Rightarrow> 'd CTxMemPool \<Rightarrow> uint256 \<Rightarrow> CTxMemPoolEntry \<Rightarrow> bool \<Rightarrow> 'd CTxMemPool option" where
  "addUnchecked mu p hash entry fCurrentEstimate =
     do {
       r \<leftarrow> CalculateMemPoolAncestors p entry {} nNoLimit nNoLimit nNoLimit nNoLimit;
       addUnchecked_anc mu p hash entry (snd r) fCurrentEstimate
     }"

definition removeUnchecked :: "memusage \<Rightarrow> 'd CTxMemPool \<Rightarrow> uint256 \<Rightarrow> 'd CTxMemPool option" where
  "removeUnchecked mu p hash =
     do {
       it \<leftarrow> mapTx p hash;
       Some (p\<lparr>mapNextTx := fold (\<lambda>txin m. m(prevout txin := None)) (vin (tx it)) (mapNextTx p),
               totalTxSize := totalTxSize p - nTxSize it,
               cachedInnerUsage := cachedInnerUsage p - nUsageSize it
                   - (DynamicUsage_set mu (parents (links_at p hash))
                      + DynamicUsage_set mu (children (links_at p hash))),
               mapLinks := (mapLinks p)(hash := None),
               mapTx := (mapTx p)(hash := None),
               nTransactionsUpdated := nTransactionsUpdated p + 1\<rparr>)
     }"

text \<open>\<open>CalculateDescendants\<close>: the loop over one stage collects \<open>setNext\<close>.\<close>

definition stage_children :: "'d CTxMemPool \<Rightarrow> uint256 set \<Rightarrow> uint256 \<Rightarrow> uint256 set \<Rightarrow> uint256 set option" where
  "stage_children p setDescendants stagehash setNext =
     do {
       setChildren \<leftarrow> GetMemPoolChildren p stagehash;
       foreach (\<lambda>childhash s.
                  case mapTx p childhash of
                    None \<Rightarrow> None
                  | Some ce \<Rightarrow> Some (if GetHash (tx ce) \<notin> setDescendants
                                     then insert (GetHash (tx ce)) s else s))
         (sorted_list_of_set setChildren) setNext
     }"

partial_function (option) descendants_loop ::
  "'d CTxMemPool \<Rightarrow> uint256 set \<Rightarrow> uint256 set \<Rightarrow> uint256 set option" where
  "descendants_loop p stage setDescendants =
     (if stage = {} then Some setDescendants
      else (case foreach (stage_children p (setDescendants \<union> stage)) (sorted_list_of_set stage) {} of
              None \<Rightarrow> None
            | Some setNext \<Rightarrow> descendants_loop p setNext (setDescendants \<union> stage)))"

definition CalculateDescendants :: "'d CTxMemPool \<Rightarrow> uint256 \<Rightarrow> uint256 set \<Rightarrow> uint256 set option" where
  "CalculateDescendants p hash setDescendants =
     descendants_loop p (if hash \<notin> setDescendants then {hash} else {}) setDescendants"

definition RemoveStaged :: "memusage \<Rightarrow> 'd CTxMemPool \<Rightarrow> uint256 set \<Rightarrow> 'd CTxMemPool option" where
  "RemoveStaged mu p stage =
     do {
       p1 \<leftarrow> UpdateForRemoveFromMempool mu p stage;
       foreach (\<lambda>hash q. removeUnchecked mu q hash) (sorted_list_of_set stage) p1
     }"

text \<open>\<open>remove(origTx, removed, fRecursive)\<close>: the result is the pool and the list \<open>removed\<close>.\<close>

definition remove ::
  "memusage \<Rightarrow> 'd CTxMemPool \<Rightarrow> CTransaction \<Rightarrow> CTransaction list \<Rightarrow> bool
     \<Rightarrow> ('d CTxMemPool \<times> CTransaction list) option" where
  "remove mu p origTx removed fRecursive =
     (let txToRemove =
            (if mapTx p (GetHash origTx) \<noteq> None then {GetHash origTx}
             else if fRecursive
             then (\<lambda>i. GetHash (fst (the (mapNextTx p (GetHash origTx, i))))) `
                    {i. i < length (vout origTx) \<and> mapNextTx p (GetHash origTx, i) \<noteq> None}
             else {})
      in do {
        setAllRemoves \<leftarrow>
          (if fRecursive
           then foreach (\<lambda>hash s. CalculateDescendants p hash s) (sorted_list_of_set txToRemove) {}
           else Some txToRemove);
        txs \<leftarrow> foreach (\<lambda>hash l. map_option (\<lambda>e. l @ [tx e]) (mapTx p hash))
                 (sorted_list_of_set setAllRemoves) removed;
        p' \<leftarrow> RemoveStaged mu p setAllRemoves;
        Some (p', txs)
      })"

text \<open>\<open>txConflict != tx\<close> compares the transaction ids (\<open>operator!=\<close> of \<open>CTransaction\<close>).\<close>

definition removeConflicts ::
  "memusage \<Rightarrow> 'd CTxMemPool \<Rightarrow> CTransaction \<Rightarrow> CTransaction list
     \<Rightarrow> ('d CTxMemPool \<times> CTransaction list) option" where
  "removeConflicts mu p t removed =
     foreach (\<lambda>txin (q, rem).
                case mapNextTx q (prevout txin) of
                  None \<Rightarrow> Some (q, rem)
                | Some (txConflict, i) \<Rightarrow>
                    if GetHash txConflict \<noteq> GetHash t then remove mu q txConflict rem True
                    else Some (q, rem))
       (vin t) (p, removed)"

subsection \<open>Prioritisation\<close>

definition PrioritiseTransaction ::
  "('d::{zero,plus}) CTxMemPool \<Rightarrow> uint256 \<Rightarrow> 'd \<Rightarrow> CAmount \<Rightarrow> 'd CTxMemPool" where
  "PrioritiseTransaction p hash dPriorityDelta nFeeDelta =
     p\<lparr>mapDeltas := (mapDeltas p)(hash \<mapsto>
         (case mapDeltas p hash of
            None \<Rightarrow> (0 + dPriorityDelta, 0 + nFeeDelta)
          | Some (a, b) \<Rightarrow> (a + dPriorityDelta, b + nFeeDelta)))\<rparr>"

text \<open>\<open>ApplyDeltas(hash, dPriorityDelta, nFeeDelta)\<close>: the two references are the pair in and out.\<close>

definition ApplyDeltas :: "('d::plus) CTxMemPool \<Rightarrow> uint256 \<Rightarrow> 'd \<times> CAmount \<Rightarrow> 'd \<times> CAmount" where
  "ApplyDeltas p hash d =
     (case mapDeltas p hash of
        None \<Rightarrow> d
      | Some deltas \<Rightarrow> (fst d + fst deltas, snd d + snd deltas))"

definition ClearPrioritisation :: "'d CTxMemPool \<Rightarrow> uint256 \<Rightarrow> 'd CTxMemPool" where
  "ClearPrioritisation p hash = p\<lparr>mapDeltas := (mapDeltas p)(hash := None)\<rparr>"

text \<open>
  \<open>removeForBlock(vtx, nBlockHeight, conflicts, fCurrentEstimate)\<close>: the result is the
  pool, the list \<open>conflicts\<close> and the entries handed to the fee estimator.
\<close>

definition removeForBlock ::
  "memusage \<Rightarrow> 'd CTxMemPool \<Rightarrow> CTransaction list \<Rightarrow> nat \<Rightarrow> CTransaction list \<Rightarrow> bool
     \<Rightarrow> ('d CTxMemPool \<times> CTransaction list \<times> CTxMemPoolEntry list) option" where
  "removeForBlock mu p vtx nBlockHeight conflicts fCurrentEstimate =
     (let entries = concat (map (\<lambda>t. case mapTx p (GetHash t) of None \<Rightarrow> [] | Some e \<Rightarrow> [e]) vtx)
      in do {
        r \<leftarrow> foreach (\<lambda>t (q, confl).
                 do {
                   r1 \<leftarrow> remove mu q t [] False;
                   r2 \<leftarrow> removeConflicts mu (fst r1) t confl;
                   Some (ClearPrioritisation (fst r2) (GetHash t), snd r2)
                 })
               vtx (p, conflicts);
        Some (fst r, snd r, entries)
      })"

subsection \<open>Expiry and trimming\<close>

text \<open>
  The orderings of the multi-index container are declared in txmempool.h, which is not
  among the sources. A loop over one of them takes its iteration sequence as an argument:
  \<open>byTime\<close> is \<open>mapTx.get<2>()\<close> from \<open>begin()\<close>, \<open>byScore\<close> is \<open>mapTx.get<1>()\<close> from
  \<open>rbegin()\<close>, each a list of the ids of the entries.
\<close>

fun expire_scan :: "'d CTxMemPool \<Rightarrow> int \<Rightarrow> uint256 list \<Rightarrow> uint256 set \<Rightarrow> uint256 set option" where
  "expire_scan p time [] toremove = Some toremove"
| "expire_scan p time (i # rest) toremove =
     (case mapTx p i of
        None \<Rightarrow> None
      | Some it \<Rightarrow> if nTime it < time then expire_scan p time rest (insert (GetHash (tx it)) toremove)
                   else Some toremove)"

definition Expire :: "memusage \<Rightarrow> 'd CTxMemPool \<Rightarrow> uint256 list \<Rightarrow> int \<Rightarrow> ('d CTxMemPool \<times> nat) option" where
  "Expire mu p byTime time =
     do {
       toremove \<leftarrow> expire_scan p time byTime {};
       stage \<leftarrow> foreach (\<lambda>hash s. CalculateDescendants p hash s) (sorted_list_of_set toremove) {};
       p' \<leftarrow> RemoveStaged mu p stage;
       Some (p', card stage)
     }"

definition DynamicMemoryUsage :: "memusage \<Rightarrow> 'd CTxMemPool \<Rightarrow> uint64" where
  "DynamicMemoryUsage mu p =
     muEntry mu * of_nat (card (dom (mapTx p)))
       + muNextTxNode mu * of_nat (card (dom (mapNextTx p)))
       + muDeltasNode mu * of_nat (card (dom (mapDeltas p)))
       + muLinksNode mu * of_nat (card (dom (mapLinks p)))
       + cachedInnerUsage p"

definition GuessDynamicMemoryUsage :: "memusage \<Rightarrow> CTxMemPoolEntry \<Rightarrow> uint64" where
  "GuessDynamicMemoryUsage mu entry =
     muEntry mu + nUsageSize entry
       + (muNextTxNode mu + muSetNode mu) * of_nat (length (vin (tx entry)))
       + muLinksNode mu"

text \<open>
  The ids of the transactions that \<open>mapNextTx\<close> records as spending an output of \<open>hashnow\<close>,
  in the order of the walk from \<open>lower_bound(COutPoint(hashnow, 0))\<close>.
\<close>

definition spenders :: "'d CTxMemPool \<Rightarrow> uint256 \<Rightarrow> uint256 list" where
  "spenders p hashnow =
     map (\<lambda>i. GetHash (fst (the (mapNextTx p (hashnow, i)))))
       (sorted_list_of_set {i. mapNextTx p (hashnow, i) \<noteq> None})"

text \<open>
  The breadth-first walk over the descendants of one candidate in \<open>TrimMempool\<close>. The state
  is \<open>todo\<close>, \<open>now\<close>, \<open>nowfee\<close>, \<open>nowsize\<close>, \<open>nowusage\<close> and \<open>itertotal\<close>; the result adds
  \<open>good\<close>. The bound on \<open>itertotal\<close> ends the walk.
\<close>

function trim_walk ::
  "memusage \<Rightarrow> 'd CTxMemPool \<Rightarrow> uint256 set \<Rightarrow> uint256 set \<Rightarrow> CAmount \<Rightarrow> CAmount \<Rightarrow> CAmount
     \<Rightarrow> int \<Rightarrow> int \<Rightarrow> int
     \<Rightarrow> uint256 list \<times> uint256 set \<times> CAmount \<times> uint64 \<times> uint64 \<times> int
     \<Rightarrow> (bool \<times> uint256 set \<times> CAmount \<times> uint64 \<times> uint64 \<times> int) option" where
  "trim_walk mu p protect stage nFeesReserved nFeesRemoved feeToUse iterextra iterperfail fails
       (todo, now, nowfee, nowsize, nowusage, itertotal) =
     (case todo of
        [] \<Rightarrow> Some (True, now, nowfee, nowsize, nowusage, itertotal)
      | hashnow # todo_rest \<Rightarrow>
          if hashnow \<in> protect then Some (False, now, nowfee, nowsize, nowusage, itertotal)
          else if itertotal + 1 > iterextra + iterperfail * (fails + 1)
          then Some (False, now, nowfee, nowsize, nowusage, itertotal + 1)
          else (case mapTx p hashnow of
                  None \<Rightarrow> None
                | Some origTx \<Rightarrow>
                    if nFeesReserved + nFeesRemoved + (nowfee + nFee origTx) > feeToUse
                    then Some (False, now, nowfee + nFee origTx, nowsize, nowusage, itertotal + 1)
                    else trim_walk mu p protect stage nFeesReserved nFeesRemoved feeToUse
                           iterextra iterperfail fails
                           (todo_rest @ filter (\<lambda>nexthash. \<not> (nexthash \<in> stage \<or> nexthash \<in> insert hashnow now))
                                          (spenders p hashnow),
                            insert hashnow now, nowfee + nFee origTx, nowsize + nTxSize origTx,
                            nowusage + GuessDynamicMemoryUsage mu origTx, itertotal + 1)))"
  by pat_completeness auto
termination
  by (relation "measure (\<lambda>(mu, p, protect, stage, nFeesReserved, nFeesRemoved, feeToUse, iterextra,
                            iterperfail, fails, todo, now, nowfee, nowsize, nowusage, itertotal).
                   nat (iterextra + iterperfail * (fails + 1) - itertotal))") auto

declare trim_walk.simps [simp del]

text \<open>
  The state of the loop of \<open>TrimMempool\<close> over the candidates: \<open>stage\<close>, \<open>nFeesRemoved\<close>,
  \<open>usageRemoved\<close>, \<open>fails\<close> and \<open>itertotal\<close>.
\<close>

record TrimState =
  tsStage :: "uint256 set"
  tsFeesRemoved :: CAmount
  tsUsageRemoved :: uint64
  tsFails :: int
  tsIterTotal :: int

text \<open>
  The loop of \<open>TrimMempool\<close>. \<open>rnd k\<close> is the value of the \<open>k\<close>-th call of \<open>insecure_rand()\<close>
  after \<open>seed_insecure_rand()\<close>; every pass of the loop makes one call and then leaves the
  loop or moves to the next candidate, so the call at candidate number \<open>k\<close> is the \<open>k\<close>-th.
  Two comparisons are made in double precision; \<open>dgt a s b t\<close> stands for
  \<open>(double)a * s > (double)b * t\<close> and is a parameter. \<open>iterperfail\<close> and \<open>failmax\<close> are 10.
\<close>

fun trim_loop ::
  "memusage \<Rightarrow> 'd CTxMemPool \<Rightarrow> (nat \<Rightarrow> nat) \<Rightarrow> (CAmount \<Rightarrow> uint64 \<Rightarrow> CAmount \<Rightarrow> uint64 \<Rightarrow> bool)
     \<Rightarrow> uint64 \<Rightarrow> uint256 set \<Rightarrow> CAmount \<Rightarrow> uint64 \<Rightarrow> CAmount \<Rightarrow> int
     \<Rightarrow> nat \<Rightarrow> uint256 list \<Rightarrow> TrimState \<Rightarrow> TrimState option" where
  "trim_loop mu p rnd dgt sizeToTrim protect nFeesReserved sizeToUse feeToUse iterextra k [] st = Some st"
| "trim_loop mu p rnd dgt sizeToTrim protect nFeesReserved sizeToUse feeToUse iterextra k (i # rest) st =
     (if \<not> tsUsageRemoved st < sizeToTrim then Some st
      else if rnd k mod 10 \<noteq> 0
      then trim_loop mu p rnd dgt sizeToTrim protect nFeesReserved sizeToUse feeToUse iterextra (k + 1) rest st
      else (case mapTx p i of
              None \<Rightarrow> None
            | Some it \<Rightarrow>
                if GetHash (tx it) \<in> tsStage st
                then trim_loop mu p rnd dgt sizeToTrim protect nFeesReserved sizeToUse feeToUse iterextra
                       (k + 1) rest st
                else if dgt (nFee it) sizeToUse feeToUse (nTxSize it) then Some st
                else (case trim_walk mu p protect (tsStage st) nFeesReserved (tsFeesRemoved st) feeToUse
                             iterextra 10 (tsFails st)
                             ([GetHash (tx it)], {}, 0, 0, 0, tsIterTotal st) of
                        None \<Rightarrow> None
                      | Some (good, now, nowfee, nowsize, nowusage, itertotal) \<Rightarrow>
                          if good \<and> \<not> dgt nowfee sizeToUse feeToUse nowsize
                          then trim_loop mu p rnd dgt sizeToTrim protect nFeesReserved sizeToUse feeToUse
                                 iterextra (k + 1) rest
                                 (st\<lparr>tsStage := tsStage st \<union> now,
                                     tsFeesRemoved := tsFeesRemoved st + nowfee,
                                     tsUsageRemoved := tsUsageRemoved st + nowusage,
                                     tsIterTotal := itertotal\<rparr>)
                          else if tsFails st + 1 > 10
                          then Some (st\<lparr>tsFails := tsFails st + 1, tsIterTotal := itertotal\<rparr>)
                          else trim_loop mu p rnd dgt sizeToTrim protect nFeesReserved sizeToUse feeToUse
                                 iterextra (k + 1) rest
                                 (st\<lparr>tsFails := tsFails st + 1, tsIterTotal := itertotal\<rparr>))))"

text \<open>
  \<open>TrimMempool(sizeToTrim, protect, nFeesReserved, sizeToUse, feeToUse, mustTrimAllSize,
  iterextra, stage, nFeesRemoved)\<close>: the result is the returned flag and the two references
  \<open>stage\<close> and \<open>nFeesRemoved\<close>.
\<close>

definition TrimMempool ::
  "memusage \<Rightarrow> 'd CTxMemPool \<Rightarrow> uint256 list \<Rightarrow> (nat \<Rightarrow> nat) \<Rightarrow> (CAmount \<Rightarrow> uint64 \<Rightarrow> CAmount \<Rightarrow> uint64 \<Rightarrow> bool)
     \<Rightarrow> uint64 \<Rightarrow> uint256 set \<Rightarrow> CAmount \<Rightarrow> uint64 \<Rightarrow> CAmount \<Rightarrow> bool \<Rightarrow> int
     \<Rightarrow> uint256 set \<Rightarrow> CAmount \<Rightarrow> (bool \<times> uint256 set \<times> CAmount) option" where
  "TrimMempool mu p byScore rnd dgt sizeToTrim protect nFeesReserved sizeToUse feeToUse
       mustTrimAllSize iterextra stage nFeesRemoved =
     do {
       st \<leftarrow> trim_loop mu p rnd dgt sizeToTrim protect nFeesReserved sizeToUse feeToUse iterextra 0 byScore
               \<lparr>tsStage = stage, tsFeesRemoved = nFeesRemoved, tsUsageRemoved = 0,
                tsFails = 0, tsIterTotal = 0\<rparr>;
       Some (if mustTrimAllSize \<and> tsUsageRemoved st < sizeToTrim then False
             else if tsStage st = {} \<and> sizeToTrim > 0 then False
             else True,
             tsStage st, tsFeesRemoved st)
     }"

definition StageTrimToSize ::
  "memusage \<Rightarrow> 'd CTxMemPool \<Rightarrow> uint256 list \<Rightarrow> (nat \<Rightarrow> nat) \<Rightarrow> (CAmount \<Rightarrow> uint64 \<Rightarrow> CAmount \<Rightarrow> uint64 \<Rightarrow> bool)
     \<Rightarrow> uint64 \<Rightarrow> CTxMemPoolEntry \<Rightarrow> CAmount \<Rightarrow> uint256 set \<Rightarrow> CAmount
     \<Rightarrow> (bool \<times> uint256 set \<times> CAmount) option" where
  "StageTrimToSize mu p byScore rnd dgt sizelimit toadd nFeesReserved stage nFeesRemoved =
     (let protect = (\<lambda>txin. fst (prevout txin)) ` set (vin (tx toadd));
          incUsage = GuessDynamicMemoryUsage mu toadd;
          expsize = DynamicMemoryUsage mu p + incUsage
      in if expsize \<le> sizelimit then Some (True, stage, nFeesRemoved)
         else TrimMempool mu p byScore rnd dgt (min (expsize - sizelimit) incUsage) protect nFeesReserved
                (nTxSize toadd) (nFee toadd) True 10 stage nFeesRemoved)"

text \<open>
  \<open>SurplusTrim(multiplier, minRelayRate, usageToTrim)\<close>. \<open>CFeeRate\<close> (amount.h) is not among
  the sources: \<open>feePerK\<close> is \<open>minRelayRate.GetFeePerK()\<close> and \<open>GetFee r n\<close> stands for
  \<open>CFeeRate(r).GetFee(n)\<close>.
\<close>

definition SurplusTrim ::
  "memusage \<Rightarrow> 'd CTxMemPool \<Rightarrow> uint256 list \<Rightarrow> (nat \<Rightarrow> nat) \<Rightarrow> (CAmount \<Rightarrow> uint64 \<Rightarrow> CAmount \<Rightarrow> uint64 \<Rightarrow> bool)
     \<Rightarrow> (CAmount \<Rightarrow> uint64 \<Rightarrow> CAmount) \<Rightarrow> int \<Rightarrow> CAmount \<Rightarrow> uint64 \<Rightarrow> 'd CTxMemPool option" where
  "SurplusTrim mu p byScore rnd dgt GetFee multiplier feePerK usageToTrim =
     do {
       r \<leftarrow> TrimMempool mu p byScore rnd dgt usageToTrim {} 0 (usageToTrim div 4)
              (GetFee (multiplier * feePerK) (usageToTrim div 4)) False 100 {} 0;
       if fst r then RemoveStaged mu p (fst (snd r)) else Some p
     }"

section \<open>Notions used to state the properties\<close>

text \<open>
  The in-mempool ancestors of a transaction \<open>t\<close>: the entries of the pool one of whose
  outputs \<open>t\<close> spends, and the entries one of whose outputs such an entry spends, and so on.
\<close>

inductive_set mempool_ancestors :: "'d CTxMemPool \<Rightarrow> CTransaction \<Rightarrow> uint256 set"
  for p :: "'d CTxMemPool" and t :: CTransaction where
  parent: "txin \<in> set (vin t) \<Longrightarrow> mapTx p (fst (prevout txin)) = Some e
             \<Longrightarrow> fst (prevout txin) \<in> mempool_ancestors p t"
| grandparent: "c \<in> mempool_ancestors p t \<Longrightarrow> mapTx p c = Some ec \<Longrightarrow> txin \<in> set (vin (tx ec))
             \<Longrightarrow> mapTx p (fst (prevout txin)) = Some e
             \<Longrightarrow> fst (prevout txin) \<in> mempool_ancestors p t"

text \<open>
  The spend map is consistent with the entries (invariant I2, with P2): \<open>mapTx\<close> is keyed by
  the transaction id, every input of every entry is recorded in \<open>mapNextTx\<close> under the
  entry's transaction, and every spender that \<open>mapNextTx\<close> records is an entry of the pool.
\<close>

definition spend_map_ok :: "'d CTxMemPool \<Rightarrow> bool" where
  "spend_map_ok p \<longleftrightarrow>
     finite (dom (mapNextTx p)) \<and>
     (\<forall>c ec. mapTx p c = Some ec \<longrightarrow>
        GetHash (tx ec) = c \<and>
        (\<forall>txin \<in> set (vin (tx ec)). \<exists>i. mapNextTx p (prevout txin) = Some (tx ec, i))) \<and>
     (\<forall>op ip. mapNextTx p op = Some ip \<longrightarrow> mapTx p (GetHash (fst ip)) \<noteq> None)"

section \<open>Sample values\<close>

text \<open>
  A memory-usage table, three transactions and a pool with one entry: \<open>txA\<close> spends a
  confirmed output, \<open>txC\<close> spends the same output, and the pool holds \<open>txA\<close> with a
  prioritisation delta. \<open>exact_gt\<close> compares the two products exactly and \<open>GetFee0\<close> is the
  truncating fee of a rate per 1000 bytes.
\<close>

definition mu0 :: memusage where
  "mu0 = \<lparr>muEntry = 208, muSetNode = 64, muNextTxNode = 96, muDeltasNode = 96, muLinksNode = 144\<rparr>"

definition txA :: CTransaction where
  "txA = \<lparr>GetHash = 7, vin = [\<lparr>prevout = (100, 0)\<rparr>], vout = [\<lparr>nValue = 5000\<rparr>]\<rparr>"

definition entryA :: CTxMemPoolEntry where
  "entryA = mkEntry txA 1000 0 1 True 250 250 300"

definition poolA :: "int CTxMemPool" where
  "poolA = \<lparr>mapTx = [7 \<mapsto> entryA], mapLinks = [7 \<mapsto> \<lparr>parents = {}, children = {}\<rparr>],
            mapNextTx = [(100, 0) \<mapsto> (txA, 0)], mapDeltas = [7 \<mapsto> (3, 500)],
            totalTxSize = 250, cachedInnerUsage = 300, nTransactionsUpdated = 1\<rparr>"

definition poolA_removed :: "int CTxMemPool" where
  "poolA_removed = \<lparr>mapTx = Map.empty, mapLinks = Map.empty,
            mapNextTx = Map.empty, mapDeltas = [7 \<mapsto> (3, 500)],
            totalTxSize = 0, cachedInnerUsage = 0, nTransactionsUpdated = 2\<rparr>"

definition txC :: CTransaction where
  "txC = \<lparr>GetHash = 9, vin = [\<lparr>prevout = (100, 0)\<rparr>], vout = [\<lparr>nValue = 4000\<rparr>]\<rparr>"

definition exact_gt :: "CAmount \<Rightarrow> uint64 \<Rightarrow> CAmount \<Rightarrow> uint64 \<Rightarrow> bool" where
  "exact_gt a s b t = (a * uint s > b * uint t)"

definition GetFee0 :: "CAmount \<Rightarrow> uint64 \<Rightarrow> CAmount" where
  "GetFee0 r n = r * uint n div 1000"

text \<open>
  A pool with two unrelated entries, \<open>txA\<close> and \<open>txX\<close>, and an incoming entry for \<open>txB\<close>,
  which spends an output of \<open>txA\<close>; \<open>poolAX_trimmed\<close> is the pool without \<open>txX\<close>.
\<close>

definition txX :: CTransaction where
  "txX = \<lparr>GetHash = 5, vin = [\<lparr>prevout = (101, 0)\<rparr>], vout = [\<lparr>nValue = 3000\<rparr>]\<rparr>"

definition entryX :: CTxMemPoolEntry where
  "entryX = mkEntry txX 2000 0 1 True 250 250 300"

definition txB :: CTransaction where
  "txB = \<lparr>GetHash = 8, vin = [\<lparr>prevout = (7, 0)\<rparr>], vout = [\<lparr>nValue = 4000\<rparr>]\<rparr>"

definition entryB :: CTxMemPoolEntry where
  "entryB = mkEntry txB 10000 0 1 False 250 250 300"

definition poolAX :: "int CTxMemPool" where
  "poolAX = \<lparr>mapTx = [7 \<mapsto> entryA, 5 \<mapsto> entryX],
             mapLinks = [7 \<mapsto> \<lparr>parents = {}, children = {}\<rparr>, 5 \<mapsto> \<lparr>parents = {}, children = {}\<rparr>],
             mapNextTx = [(100, 0) \<mapsto> (txA, 0), (101, 0) \<mapsto> (txX, 0)], mapDeltas = Map.empty,
             totalTxSize = 500, cachedInnerUsage = 600, nTransactionsUpdated = 2\<rparr>"

definition poolAX_trimmed :: "int CTxMemPool" where
  "poolAX_trimmed = \<lparr>mapTx = [7 \<mapsto> entryA],
             mapLinks = [7 \<mapsto> \<lparr>parents = {}, children = {}\<rparr>],
             mapNextTx = [(100, 0) \<mapsto> (txA, 0)], mapDeltas = Map.empty,
             totalTxSize = 250, cachedInnerUsage = 300, nTransactionsUpdated = 3\<rparr>"

section \<open>Notions for the removal paths\<close>

definition same_frame :: "'d CTxMemPool \<Rightarrow> 'd CTxMemPool \<Rightarrow> bool" where
  "same_frame p q \<longleftrightarrow> mapDeltas q = mapDeltas p \<and> dom (mapTx q) = dom (mapTx p)"

section \<open>Notions for trimming\<close>

definition walk_closed :: "'d CTxMemPool \<Rightarrow> uint256 set \<Rightarrow> uint256 set \<Rightarrow> uint256 set \<Rightarrow> bool" where
  "walk_closed p stage S T \<longleftrightarrow> (\<forall>h \<in> S. set (spenders p h) \<subseteq> stage \<union> S \<union> T)"

section \<open>Notions for the ancestor limits\<close>

text \<open>
  \<open>pool_inputs\<close> are the transactions of the pool that an input list spends from, and
  \<open>links_consistent\<close> says that \<open>mapLinks\<close> records exactly these as the parents of every
  entry. \<open>ancestor_limit_exceeded\<close> is the disjunction of the four limit violations over a
  set \<open>A\<close> of ancestors, and \<open>ancestor_sums_fit\<close> says that none of the sums compared wraps
  around in 64 bits.
\<close>

definition pool_inputs :: "'d CTxMemPool \<Rightarrow> CTxIn list \<Rightarrow> uint256 set" where
  "pool_inputs p ins = {h \<in> (\<lambda>txin. fst (prevout txin)) ` set ins. mapTx p h \<noteq> None}"

definition links_consistent :: "'d CTxMemPool \<Rightarrow> bool" where
  "links_consistent p \<longleftrightarrow>
     (\<forall>h e. mapTx p h = Some e \<longrightarrow>
        (\<exists>l. mapLinks p h = Some l \<and> parents l = pool_inputs p (vin (tx e))))"

definition size_in_pool :: "'d CTxMemPool \<Rightarrow> uint256 \<Rightarrow> nat" where
  "size_in_pool p a = (case mapTx p a of None \<Rightarrow> 0 | Some ea \<Rightarrow> unat (nTxSize ea))"

definition ancestor_limit_exceeded ::
  "'d CTxMemPool \<Rightarrow> CTxMemPoolEntry \<Rightarrow> uint256 set \<Rightarrow> uint64 \<Rightarrow> uint64 \<Rightarrow> uint64 \<Rightarrow> uint64 \<Rightarrow> bool" where
  "ancestor_limit_exceeded p entry A limitAncestorCount limitAncestorSize limitDescendantCount
       limitDescendantSize \<longleftrightarrow>
     card A + 1 > unat limitAncestorCount \<or>
     (\<exists>a ea. a \<in> A \<and> mapTx p a = Some ea \<and>
         unat (nSizeWithDescendants ea) + unat (nTxSize entry) > unat limitDescendantSize) \<or>
     (\<exists>a ea. a \<in> A \<and> mapTx p a = Some ea \<and>
         unat (nCountWithDescendants ea) + 1 > unat limitDescendantCount) \<or>
     unat (nTxSize entry) + sum (size_in_pool p) A > unat limitAncestorSize"

definition ancestor_sums_fit :: "'d CTxMemPool \<Rightarrow> CTxMemPoolEntry \<Rightarrow> uint256 set \<Rightarrow> bool" where
  "ancestor_sums_fit p entry A \<longleftrightarrow>
     card A + 1 < 2 ^ 64 \<and>
     (\<forall>a ea. a \<in> A \<and> mapTx p a = Some ea \<longrightarrow>
         unat (nSizeWithDescendants ea) + unat (nTxSize entry) < 2 ^ 64 \<and>
         unat (nCountWithDescendants ea) + 1 < 2 ^ 64) \<and>
     unat (nTxSize entry) + sum (size_in_pool p) A < 2 ^ 64"

definition parents_of_set :: "'d CTxMemPool \<Rightarrow> uint256 set \<Rightarrow> uint256 set" where
  "parents_of_set p V = (\<Union>x\<in>V. case mapTx p x of None \<Rightarrow> {} | Some ex \<Rightarrow> pool_inputs p (vin (tx ex)))"

definition descendant_limits_ok :: "'d CTxMemPool \<Rightarrow> CTxMemPoolEntry \<Rightarrow> uint64 \<Rightarrow> uint64 \<Rightarrow> uint256 \<Rightarrow> bool" where
  "descendant_limits_ok p e ldc lds a \<longleftrightarrow>
     (\<forall>ea. mapTx p a = Some ea \<longrightarrow>
        unat (nSizeWithDescendants ea) + unat (nTxSize e) \<le> unat lds \<and>
        unat (nCountWithDescendants ea) + 1 \<le> unat ldc)"

text \<open>
  \<open>entryBig\<close> is an entry for \<open>txC\<close>, which has no parent in \<open>poolA\<close>, of 200000 bytes.
\<close>

definition entryBig :: CTxMemPoolEntry where
  "entryBig = mkEntry txC 1000 0 1 True 200000 200000 200300"

section \<open>Notions for adding and removing an entry\<close>

text \<open>
  \<open>addUnchecked\<close> and \<open>UpdateForRemoveFromMempool\<close> search with every limit at the largest
  64-bit value, so no check can fail. \<open>link_ancestors\<close> is what the search then collects:
  it starts from the transactions of the pool that the inputs name and follows the
  parents recorded in \<open>mapLinks\<close>. \<open>links_closed\<close> says that every entry has its links and
  that these name entries of the pool.
\<close>

definition link_parents :: "'d CTxMemPool \<Rightarrow> uint256 set \<Rightarrow> uint256 set" where
  "link_parents p V = (\<Union>x\<in>V. case mapLinks p x of None \<Rightarrow> {} | Some l \<Rightarrow> parents l)"

inductive_set link_ancestors :: "'d CTxMemPool \<Rightarrow> CTxIn list \<Rightarrow> uint256 set"
  for p :: "'d CTxMemPool" and ins :: "CTxIn list" where
  direct: "h \<in> pool_inputs p ins \<Longrightarrow> h \<in> link_ancestors p ins"
| step: "c \<in> link_ancestors p ins \<Longrightarrow> mapLinks p c = Some l \<Longrightarrow> h \<in> parents l
           \<Longrightarrow> h \<in> link_ancestors p ins"

definition links_closed :: "'d CTxMemPool \<Rightarrow> bool" where
  "links_closed p \<longleftrightarrow>
     (\<forall>x ex. mapTx p x = Some ex \<longrightarrow>
        (\<exists>l. mapLinks p x = Some l \<and> parents l \<subseteq> dom (mapTx p) \<and> children l \<subseteq> dom (mapTx p)))"

text \<open>
  \<open>pool_with_entry\<close> writes out what \<open>addUnchecked\<close> makes of a pool that does not hold
  the transaction: the entry and its links, the child link in each parent, the aggregates
  of each ancestor, the spent outpoints, the usage and the counters.
\<close>

definition input_hashes :: "CTxMemPoolEntry \<Rightarrow> uint256 set" where
  "input_hashes e = (\<lambda>txin. fst (prevout txin)) ` set (vin (tx e))"

definition pool_with_entry :: "memusage \<Rightarrow> 'd CTxMemPool \<Rightarrow> CTxMemPoolEntry \<Rightarrow> 'd CTxMemPool" where
  "pool_with_entry mu p e =
     p\<lparr>mapTx := (\<lambda>y. if y = GetHash (tx e) then Some e
                     else if y \<in> link_ancestors p (vin (tx e))
                     then map_option (\<lambda>u. UpdateState u (nTxSize e) (nFee e) 1) (mapTx p y)
                     else mapTx p y),
       mapLinks := (\<lambda>y. if y = GetHash (tx e)
                        then Some \<lparr>parents = pool_inputs p (vin (tx e)), children = {}\<rparr>
                        else if y \<in> pool_inputs p (vin (tx e))
                        then Some ((links_at p y)\<lparr>children := insert (GetHash (tx e)) (children (links_at p y))\<rparr>)
                        else mapLinks p y),
       mapNextTx := fold (\<lambda>i m. m(prevout (vin (tx e) ! i) \<mapsto> (tx e, i)))
                      [0 ..< length (vin (tx e))] (mapNextTx p),
       cachedInnerUsage := cachedInnerUsage p + nUsageSize e
            + muSetNode mu * of_nat (card (pool_inputs p (vin (tx e))))
            + muSetNode mu * of_nat (card (pool_inputs p (vin (tx e)))),
       nTransactionsUpdated := nTransactionsUpdated p + 1,
       totalTxSize := totalTxSize p + nTxSize e\<rparr>"

text \<open>
  \<open>inputs_unspent\<close>: no transaction of the pool spends an outpoint that the entry spends.
  \<open>counts_below_max\<close>: no descendant count is at the largest 64-bit value, where one more
  descendant would wrap it to the value that marks a dirty entry. \<open>poolAB\<close> is \<open>poolA\<close>
  after \<open>txB\<close>, a child of \<open>txA\<close>, has been added.
\<close>

definition inputs_unspent :: "'d CTxMemPool \<Rightarrow> CTxMemPoolEntry \<Rightarrow> bool" where
  "inputs_unspent p e \<longleftrightarrow> (\<forall>txin \<in> set (vin (tx e)). mapNextTx p (prevout txin) = None)"

definition counts_below_max :: "'d CTxMemPool \<Rightarrow> bool" where
  "counts_below_max p \<longleftrightarrow> (\<forall>x ex. mapTx p x = Some ex \<longrightarrow> nCountWithDescendants ex \<noteq> - 1)"

definition poolAB :: "int CTxMemPool" where
  "poolAB = \<lparr>mapTx = [7 \<mapsto> entryA\<lparr>nCountWithDescendants := 2, nSizeWithDescendants := 500,
                                   nFeesWithDescendants := 11000\<rparr>,
                     8 \<mapsto> entryB],
             mapLinks = [7 \<mapsto> \<lparr>parents = {}, children = {8}\<rparr>, 8 \<mapsto> \<lparr>parents = {7}, children = {}\<rparr>],
             mapNextTx = [(100, 0) \<mapsto> (txA, 0), (7, 0) \<mapsto> (txB, 0)], mapDeltas = [7 \<mapsto> (3, 500)],
             totalTxSize = 500, cachedInnerUsage = 728, nTransactionsUpdated = 2\<rparr>"

section \<open>The sanity check (CTxMemPool::check)\<close>

text \<open>
  Modelled from the spec: the coins view (\<open>CCoinsViewCache\<close>, coins.cpp) and \<open>UpdateCoins\<close>
  (main.cpp) are not among the sources. The spec speaks of inputs that are available:
  a view is the set of outpoints that are available, \<open>HaveInputs\<close> holds when every input of
  the transaction is available, and \<open>UpdateCoins\<close> spends the inputs of the transaction and
  makes its outputs available. \<open>CheckInputs\<close>, which also runs the scripts, is a parameter
  of the loop.
\<close>

type_synonym CCoinsView = "COutPoint set"

definition HaveInputs :: "CCoinsView \<Rightarrow> CTransaction \<Rightarrow> bool" where
  "HaveInputs view t \<longleftrightarrow> (\<forall>txin \<in> set (vin t). prevout txin \<in> view)"

definition UpdateCoins :: "CTransaction \<Rightarrow> CCoinsView \<Rightarrow> CCoinsView" where
  "UpdateCoins t view =
     (view - prevout ` set (vin t)) \<union> (\<lambda>n. (GetHash t, n)) ` {..< length (vout t)}"

text \<open>
  The loop \<open>while (!waitingOnDependants.empty())\<close> of \<open>check\<close>, lines 627 to 641. The two
  assertions of the body are the two ways it aborts: \<open>StepsBound\<close> is
  \<open>assert(stepsSinceLastRemove < waitingOnDependants.size())\<close> and \<open>InputsInvalid\<close> is
  \<open>assert(CheckInputs(...))\<close>. \<open>stepsSinceLastRemove\<close> is an \<open>unsigned int\<close>, which is
  converted to \<open>size_t\<close> for the comparison. \<open>iterations\<close> is not a variable of the source:
  it counts the passes through the body, so that their number can be stated. The result
  is the assertion that failed, if any, the view and the number of passes.
\<close>

datatype check_abort = StepsBound | InputsInvalid

partial_function (option) check_pending ::
  "(CTransaction \<Rightarrow> CCoinsView \<Rightarrow> bool) \<Rightarrow> CTxMemPoolEntry list \<Rightarrow> 32 word \<Rightarrow> CCoinsView \<Rightarrow> nat
     \<Rightarrow> (check_abort option \<times> CCoinsView \<times> nat) option" where
  "check_pending CheckInputs waitingOnDependants stepsSinceLastRemove mempoolDuplicate iterations =
     (case waitingOnDependants of
        [] \<Rightarrow> Some (None, mempoolDuplicate, iterations)
      | entry # rest \<Rightarrow>
          if \<not> HaveInputs mempoolDuplicate (tx entry)
          then (if unat (stepsSinceLastRemove + 1) < length (rest @ [entry])
                then check_pending CheckInputs (rest @ [entry]) (stepsSinceLastRemove + 1)
                       mempoolDuplicate (iterations + 1)
                else Some (Some StepsBound, mempoolDuplicate, iterations + 1))
          else if CheckInputs (tx entry) mempoolDuplicate
          then check_pending CheckInputs rest 0 (UpdateCoins (tx entry) mempoolDuplicate)
                 (iterations + 1)
          else Some (Some InputsInvalid, mempoolDuplicate, iterations + 1))"

subsection \<open>Graph integrity of the pending transactions\<close>

text \<open>
  What the first loop of \<open>check\<close> asserts, read at the entry of the second one:
  the pending entries are pairwise different; every input of a pending transaction is
  available in the view or is an output of a pending transaction (\<open>inputs_resolve\<close>); no
  outpoint is spent by two pending transactions (\<open>spends_disjoint\<close>); and the pending
  transactions can be ranked so that every one ranks above the pending transactions it
  spends from (\<open>ranked\<close>), which is to say that they do not depend on each other in a cycle.
\<close>

definition inputs_resolve :: "CTxMemPoolEntry list \<Rightarrow> CCoinsView \<Rightarrow> bool" where
  "inputs_resolve ws view \<longleftrightarrow>
     (\<forall>e \<in> set ws. \<forall>txin \<in> set (vin (tx e)).
        prevout txin \<in> view \<or>
        (\<exists>e2 \<in> set ws. GetHash (tx e2) = fst (prevout txin) \<and>
                          snd (prevout txin) < length (vout (tx e2))))"

definition spends_disjoint :: "CTxMemPoolEntry list \<Rightarrow> bool" where
  "spends_disjoint ws \<longleftrightarrow>
     (\<forall>e \<in> set ws. \<forall>e' \<in> set ws. e \<noteq> e' \<longrightarrow>
        prevout ` set (vin (tx e)) \<inter> prevout ` set (vin (tx e')) = {})"

definition ranked :: "(uint256 \<Rightarrow> nat) \<Rightarrow> CTxMemPoolEntry list \<Rightarrow> bool" where
  "ranked rank ws \<longleftrightarrow>
     (\<forall>e \<in> set ws. \<forall>txin \<in> set (vin (tx e)). \<forall>e2 \<in> set ws.
        GetHash (tx e2) = fst (prevout txin) \<longrightarrow> rank (GetHash (tx e2)) < rank (GetHash (tx e)))"

definition pending_ok :: "CTxMemPoolEntry list \<Rightarrow> CCoinsView \<Rightarrow> bool" where
  "pending_ok ws view \<longleftrightarrow>
     distinct ws \<and> inputs_resolve ws view \<and> spends_disjoint ws \<and> (\<exists>rank. ranked rank ws)"

subsection \<open>The number of passes\<close>

text \<open>\<open>tri n\<close> is \<open>1 + ... + n\<close>, the most passes that \<open>n\<close> pending entries can take.\<close>

fun tri :: "nat \<Rightarrow> nat" where
  "tri 0 = 0"
| "tri (Suc n) = tri n + Suc n"

subsection \<open>Sample entries\<close>

text \<open>
  \<open>txD\<close> spends the output of \<open>txB\<close>, which spends the output of \<open>txA\<close>. With \<open>txD\<close> queued
  before \<open>txB\<close> and the output of \<open>txA\<close> available, the loop takes three passes. With \<open>txD\<close>
  alone, whose input never becomes available, the bound on the steps fails.
\<close>

definition txD :: CTransaction where
  "txD = \<lparr>GetHash = 11, vin = [\<lparr>prevout = (8, 0)\<rparr>], vout = [\<lparr>nValue = 3500\<rparr>]\<rparr>"

definition entryD :: CTxMemPoolEntry where
  "entryD = mkEntry txD 500 0 1 False 250 250 300"

section \<open>Compact-block reconstruction (blockencodings.cpp)\<close>

text \<open>
  Modelled from the spec: the block header class is not among the sources. Of a header
  the code reads only \<open>IsNull()\<close>; a header is null when its \<open>nBits\<close> is 0.
\<close>

record CBlockHeader =
  hashPrevBlock :: uint256
  nBits :: "32 word"

definition header_IsNull :: "CBlockHeader \<Rightarrow> bool" where
  "header_IsNull h = (nBits h = 0)"

text \<open>\<open>CTransaction::IsNull\<close>: no inputs and no outputs.\<close>

definition tx_IsNull :: "CTransaction \<Rightarrow> bool" where
  "tx_IsNull t = (vin t = [] \<and> vout t = [])"

text \<open>A prefilled transaction is its \<open>index\<close> (a \<open>uint16_t\<close>) and its \<open>tx\<close>.\<close>

type_synonym PrefilledTransaction = "16 word \<times> CTransaction"

record CBlockHeaderAndShortTxIDs =
  header :: CBlockHeader
  nonce :: uint64
  shorttxids :: "uint64 list"
  prefilledtxn :: "PrefilledTransaction list"

datatype ReadStatus = READ_STATUS_OK | READ_STATUS_INVALID | READ_STATUS_FAILED

text \<open>
  The members of \<open>PartiallyDownloadedBlock\<close>; its \<open>header\<close> is \<open>block_header\<close> here. A slot of
  \<open>txn_available\<close> is \<open>None\<close> where the shared pointer is null.
\<close>

record PartiallyDownloadedBlock =
  block_header :: CBlockHeader
  txn_available :: "CTransaction option list"
  prefilled_count :: nat
  mempool_count :: nat

text \<open>
  What \<open>InitData\<close> takes from outside the file: \<open>maxTxCount\<close> is
  \<open>MAX_BLOCK_SIZE / ::GetSerializeSize(CTransaction(), SER_NETWORK, PROTOCOL_VERSION)\<close>;
  \<open>bucketSize m k\<close> is \<open>m.bucket_size(m.bucket(k))\<close> of the \<open>std::unordered_map\<close> \<open>m\<close>, which
  depends on the library's hash and bucket count; \<open>GetShortID\<close> is the SipHash of a
  transaction id under the keys of the message; \<open>vTxHashes\<close> is the pool's vector, each
  element the id and the transaction of an entry.
\<close>

record InitEnv =
  maxTxCount :: nat
  bucketSize :: "(uint64 \<rightharpoonup> 16 word) \<Rightarrow> uint64 \<Rightarrow> nat"
  GetShortID :: "CBlockHeaderAndShortTxIDs \<Rightarrow> uint256 \<Rightarrow> uint64"
  vTxHashes :: "(uint256 \<times> CTransaction) list"

text \<open>
  The loop over \<open>prefilledtxn\<close>: \<open>i\<close> is the loop index, \<open>lastprefilledindex\<close> an \<open>int32_t\<close>
  that stays below 65536. The result is \<open>txn_available\<close> and a flag, which is \<open>False\<close>
  where the source returns \<open>READ_STATUS_INVALID\<close>.
\<close>

fun prefilled_loop :: "nat \<Rightarrow> PrefilledTransaction list \<Rightarrow> nat \<Rightarrow> int \<Rightarrow> CTransaction option list
      \<Rightarrow> bool \<times> CTransaction option list" where
  "prefilled_loop nShort [] i lastprefilledindex avail = (True, avail)"
| "prefilled_loop nShort (pf # rest) i lastprefilledindex avail =
     (if tx_IsNull (snd pf) then (False, avail)
      else let lastprefilledindex' = lastprefilledindex + (uint (fst pf) + 1) in
        if lastprefilledindex' > 65535 then (False, avail)
        else if nat lastprefilledindex' > nShort + i then (False, avail)
        else prefilled_loop nShort rest (i + 1) lastprefilledindex'
               (avail[nat lastprefilledindex' := Some (snd pf)]))"

text \<open>
  \<open>while (txn_available[i + index_offset]) index_offset++\<close>, with \<open>index_offset\<close> a
  \<open>uint16_t\<close>. The result is the new \<open>index_offset\<close>; it is \<open>None\<close> where the loop reads beyond
  the vector, and where all 65536 values of \<open>index_offset\<close> meet a filled slot, so that
  the loop comes back to where it started and does not end.
\<close>

fun skip_available :: "CTransaction option list \<Rightarrow> nat \<Rightarrow> nat \<Rightarrow> nat \<Rightarrow> nat option" where
  "skip_available avail i index_offset 0 = None"
| "skip_available avail i index_offset (Suc fuel) =
     (if i + index_offset \<ge> length avail then None
      else if avail ! (i + index_offset) \<noteq> None
      then skip_available avail i ((index_offset + 1) mod 65536) fuel
      else Some index_offset)"

text \<open>
  The loop that builds the map \<open>shorttxids\<close> from short id to position. The result is
  \<open>Some None\<close> where the source returns \<open>READ_STATUS_FAILED\<close> for an overfull bucket.
\<close>

fun shortid_loop :: "InitEnv \<Rightarrow> CTransaction option list \<Rightarrow> uint64 list \<Rightarrow> nat \<Rightarrow> nat
      \<Rightarrow> (uint64 \<rightharpoonup> 16 word) \<Rightarrow> (uint64 \<rightharpoonup> 16 word) option option" where
  "shortid_loop env avail [] i index_offset m = Some (Some m)"
| "shortid_loop env avail (sid # rest) i index_offset m =
     (case skip_available avail i index_offset 65536 of
        None \<Rightarrow> None
      | Some index_offset' \<Rightarrow>
          (let m' = m(sid \<mapsto> of_nat (i + index_offset')) in
           if bucketSize env m' sid > 12 then Some None
           else shortid_loop env avail rest (i + 1) index_offset' m'))"

text \<open>
  The loop over \<open>vTxHashes\<close>; the state is \<open>txn_available\<close>, \<open>have_txn\<close> and \<open>mempool_count\<close>.
  The result is \<open>None\<close> where the source reads beyond a vector.
\<close>

fun mempool_loop :: "InitEnv \<Rightarrow> CBlockHeaderAndShortTxIDs \<Rightarrow> (uint64 \<rightharpoonup> 16 word) \<Rightarrow> (uint256 \<times> CTransaction) list
      \<Rightarrow> CTransaction option list \<times> bool list \<times> nat
      \<Rightarrow> (CTransaction option list \<times> bool list \<times> nat) option" where
  "mempool_loop env cmpctblock m [] st = Some st"
| "mempool_loop env cmpctblock m (h # rest) (avail, have_txn, count) =
     (case (case m (GetShortID env cmpctblock (fst h)) of
              None \<Rightarrow> Some (avail, have_txn, count)
            | Some idit \<Rightarrow>
                if unat idit \<ge> length have_txn \<or> unat idit \<ge> length avail then None
                else if \<not> have_txn ! unat idit
                then Some (avail[unat idit := Some (snd h)], have_txn[unat idit := True], count + 1)
                else if avail ! unat idit \<noteq> None
                then Some (avail[unat idit := None], have_txn, count - 1)
                else Some (avail, have_txn, count)) of
        None \<Rightarrow> None
      | Some (avail', have_txn', count') \<Rightarrow>
          if count' = card (dom m) then Some (avail', have_txn', count')
          else mempool_loop env cmpctblock m rest (avail', have_txn', count'))"

text \<open>
  \<open>InitData(cmpctblock)\<close> on the object \<open>pdb\<close>: the result is the status and the object
  after the call, or \<open>None\<close> where an \<open>assert\<close> fails or a loop reads out of range or does
  not end.
\<close>

definition InitData :: "InitEnv \<Rightarrow> PartiallyDownloadedBlock \<Rightarrow> CBlockHeaderAndShortTxIDs
      \<Rightarrow> (ReadStatus \<times> PartiallyDownloadedBlock) option" where
  "InitData env pdb cmpctblock =
     (if header_IsNull (header cmpctblock) \<or> (shorttxids cmpctblock = [] \<and> prefilledtxn cmpctblock = [])
      then Some (READ_STATUS_INVALID, pdb)
      else if length (shorttxids cmpctblock) + length (prefilledtxn cmpctblock) > maxTxCount env
      then Some (READ_STATUS_INVALID, pdb)
      else if \<not> (header_IsNull (block_header pdb) \<and> txn_available pdb = []) then None
      else
        let pdb1 = pdb\<lparr>block_header := header cmpctblock,
                       txn_available := replicate (length (shorttxids cmpctblock)
                                                    + length (prefilledtxn cmpctblock)) None\<rparr>
        in case prefilled_loop (length (shorttxids cmpctblock)) (prefilledtxn cmpctblock) 0 (- 1)
                  (txn_available pdb1) of
             (False, avail) \<Rightarrow> Some (READ_STATUS_INVALID, pdb1\<lparr>txn_available := avail\<rparr>)
           | (True, avail) \<Rightarrow>
               let pdb2 = pdb1\<lparr>txn_available := avail,
                               prefilled_count := length (prefilledtxn cmpctblock)\<rparr>
               in case shortid_loop env avail (shorttxids cmpctblock) 0 0 Map.empty of
                    None \<Rightarrow> None
                  | Some None \<Rightarrow> Some (READ_STATUS_FAILED, pdb2)
                  | Some (Some m) \<Rightarrow>
                      if card (dom m) \<noteq> length (shorttxids cmpctblock)
                      then Some (READ_STATUS_FAILED, pdb2)
                      else (case mempool_loop env cmpctblock m (vTxHashes env)
                                   (avail, replicate (length avail) False, mempool_count pdb2) of
                              None \<Rightarrow> None
                            | Some (avail', have_txn, count) \<Rightarrow>
                                Some (READ_STATUS_OK,
                                      pdb2\<lparr>txn_available := avail', mempool_count := count\<rparr>)))"

subsection \<open>Messages that pass the checks\<close>

text \<open>
  What \<open>InitData\<close> checks of a message before it builds the map of short ids, as a
  property of the message. \<open>prefilled_valid\<close>: no prefilled transaction is null, and the
  position of each, decoded from the differences, is at most 65535 and at most the number
  of short ids plus the number of prefilled transactions before it. \<open>message_valid\<close>: the
  header is not null, the message is not empty, it has no more transactions than a block
  can hold, and its prefilled transactions are valid.
\<close>

fun prefilled_valid :: "nat \<Rightarrow> PrefilledTransaction list \<Rightarrow> nat \<Rightarrow> int \<Rightarrow> bool" where
  "prefilled_valid nShort [] i lastprefilledindex = True"
| "prefilled_valid nShort (pf # rest) i lastprefilledindex =
     (\<not> tx_IsNull (snd pf) \<and>
      lastprefilledindex + (uint (fst pf) + 1) \<le> 65535 \<and>
      nat (lastprefilledindex + (uint (fst pf) + 1)) \<le> nShort + i \<and>
      prefilled_valid nShort rest (i + 1) (lastprefilledindex + (uint (fst pf) + 1)))"

definition message_valid :: "InitEnv \<Rightarrow> CBlockHeaderAndShortTxIDs \<Rightarrow> bool" where
  "message_valid env cmpctblock \<longleftrightarrow>
     \<not> header_IsNull (header cmpctblock) \<and>
     \<not> (shorttxids cmpctblock = [] \<and> prefilledtxn cmpctblock = []) \<and>
     length (shorttxids cmpctblock) + length (prefilledtxn cmpctblock) \<le> maxTxCount env \<and>
     prefilled_valid (length (shorttxids cmpctblock)) (prefilledtxn cmpctblock) 0 (- 1)"


subsection \<open>A sample message\<close>

text \<open>A message with one prefilled transaction and twice the short id 5.\<close>

definition env0 :: InitEnv where
  "env0 = \<lparr>maxTxCount = 100000, bucketSize = (\<lambda>m k. 1), GetShortID = (\<lambda>c h. of_nat h), vTxHashes = []\<rparr>"

definition cmpct0 :: CBlockHeaderAndShortTxIDs where
  "cmpct0 = \<lparr>header = \<lparr>hashPrevBlock = 1, nBits = 486604799\<rparr>, nonce = 42,
             shorttxids = [5, 5], prefilledtxn = [(0, txA)]\<rparr>"

definition pdb0 :: PartiallyDownloadedBlock where
  "pdb0 = \<lparr>block_header = \<lparr>hashPrevBlock = 0, nBits = 0\<rparr>, txn_available = [],
           prefilled_count = 0, mempool_count = 0\<rparr>"

section \<open>Block assembly (miner.cpp)\<close>

text \<open>
  miner.cpp is written against a later txmempool.h than txmempool.cpp; neither header is
  among the sources. The record below holds what miner.cpp reads of a mempool entry,
  each field named after the accessor it stands for.
\<close>

record MempoolEntryView =
  GetTx :: CTransaction
  GetFee :: CAmount
  GetModifiedFee :: CAmount
  GetTxSize :: uint64
  GetTxWeight :: uint64
  GetTime :: int
  GetSigOpCost :: int
  GetCountWithAncestors :: uint64
  GetSizeWithAncestors :: uint64
  GetModFeesWithAncestors :: CAmount
  GetSigOpCostWithAncestors :: int

text \<open>\<open>CTxMemPoolModifiedEntry\<close> (miner.h): an entry's iterator and its package values, reduced
  by the ancestors that are already in the block.\<close>

record CTxMemPoolModifiedEntry =
  iter :: uint256
  nSizeWithAncestors :: uint64
  nModFeesWithAncestors :: CAmount
  nSigOpCostWithAncestors :: int

text \<open>
  What \<open>BlockAssembler\<close> takes from outside the file. The pool: \<open>poolTx\<close> is \<open>mempool.mapTx\<close>,
  \<open>byAncestorScore\<close> the iteration sequence of its \<open>ancestor_score\<close> index,
  \<open>poolAncestors it\<close> the set that \<open>mempool.CalculateMemPoolAncestors\<close> fills for \<open>*it\<close> without
  limits, \<open>poolDescendants it\<close> the set that \<open>mempool.CalculateDescendants\<close> fills from the empty
  set. The assembler's members: \<open>minFee n\<close> is \<open>blockMinFeeRate.GetFee(n)\<close>. Functions of other
  files: \<open>CompareModifiedEntry\<close>, \<open>IsFinalTx\<close> (at \<open>nHeight\<close> and \<open>nLockTimeCutoff\<close>), \<open>HasWitness\<close>,
  \<open>GetSerializeSize\<close>, \<open>GetTime()\<close> (\<open>timeNow\<close>), \<open>GetBlockSubsidy(nHeight)\<close> (\<open>blockSubsidy\<close>),
  \<open>GenerateCoinbaseCommitment\<close> (it may rewrite the coinbase), the transaction id of a new
  transaction (\<open>txid\<close>), \<open>GetLegacySigOpCount\<close> and \<open>TestBlockValidity\<close>. \<open>initBlockSize\<close>,
  \<open>initBlockWeight\<close> and \<open>initBlockSigOpsCost\<close> are the start values of \<open>WorkingState\<close> (miner.h).
\<close>

record MinerEnv =
  poolTx :: "uint256 \<rightharpoonup> MempoolEntryView"
  byAncestorScore :: "uint256 list"
  poolAncestors :: "uint256 \<Rightarrow> uint256 set"
  poolDescendants :: "uint256 \<Rightarrow> uint256 set"
  minFee :: "uint64 \<Rightarrow> CAmount"
  nBlockMaxWeight :: uint64
  nBlockMaxSize :: uint64
  fNeedSizeAccounting :: bool
  fIncludeWitness :: bool
  MAX_BLOCK_SIGOPS_COST :: int
  CompareModifiedEntry :: "CTxMemPoolModifiedEntry \<Rightarrow> CTxMemPoolModifiedEntry \<Rightarrow> bool"
  IsFinalTx :: "CTransaction \<Rightarrow> bool"
  HasWitness :: "CTransaction \<Rightarrow> bool"
  GetSerializeSize :: "CTransaction \<Rightarrow> uint64"
  timeNow :: int
  blockSubsidy :: CAmount
  GenerateCoinbaseCommitment :: "CTransaction \<Rightarrow> CTransaction"
  txid :: "CTxIn list \<Rightarrow> CTxOut list \<Rightarrow> uint256"
  GetLegacySigOpCount :: "CTransaction \<Rightarrow> int"
  TestBlockValidity :: "CTransaction option list \<Rightarrow> bool"
  initBlockSize :: uint64
  initBlockWeight :: uint64
  initBlockSigOpsCost :: int

definition WITNESS_SCALE_FACTOR :: uint64 where
  "WITNESS_SCALE_FACTOR = 4"

definition RECENT_TX_THRESHOLD :: int where
  "RECENT_TX_THRESHOLD = 10"

definition MAX_CONSECUTIVE_FAILURES :: int where
  "MAX_CONSECUTIVE_FAILURES = 1000"

text \<open>
  \<open>WorkingState\<close>, with the three vectors of the block template it points to. A slot of
  \<open>vtx\<close> is \<open>None\<close> where the shared pointer is null (the dummy coinbase).
\<close>

record WorkingState =
  vtx :: "CTransaction option list"
  vTxFees :: "CAmount list"
  vTxSigOpsCost :: "int list"
  nBlockSize :: uint64
  nBlockWeight :: uint64
  nBlockTx :: uint64
  nBlockSigOpsCost :: int
  nFees :: CAmount
  inBlock :: "uint256 set"

text \<open>
  \<open>mapModifiedTx\<close> is a list of modified entries, unique by \<open>iter\<close>, in the order of its
  \<open>ancestor_score\<close> index: a new element goes before the first element that it precedes
  in \<open>CompareModifiedEntry\<close>.
\<close>

fun modified_insert :: "MinerEnv \<Rightarrow> CTxMemPoolModifiedEntry \<Rightarrow> CTxMemPoolModifiedEntry list
      \<Rightarrow> CTxMemPoolModifiedEntry list" where
  "modified_insert env e [] = [e]"
| "modified_insert env e (x # xs) =
     (if CompareModifiedEntry env e x then e # x # xs else x # modified_insert env e xs)"

definition modified_find :: "CTxMemPoolModifiedEntry list \<Rightarrow> uint256 \<Rightarrow> CTxMemPoolModifiedEntry option" where
  "modified_find ms it = find (\<lambda>e. iter e = it) ms"

definition modified_erase :: "CTxMemPoolModifiedEntry list \<Rightarrow> uint256 \<Rightarrow> CTxMemPoolModifiedEntry list" where
  "modified_erase ms it = filter (\<lambda>e. iter e \<noteq> it) ms"

text \<open>The constructor \<open>CTxMemPoolModifiedEntry(entry)\<close>.\<close>

definition mkModified :: "uint256 \<Rightarrow> MempoolEntryView \<Rightarrow> CTxMemPoolModifiedEntry" where
  "mkModified it e = \<lparr>iter = it, nSizeWithAncestors = GetSizeWithAncestors e,
                      nModFeesWithAncestors = GetModFeesWithAncestors e,
                      nSigOpCostWithAncestors = GetSigOpCostWithAncestors e\<rparr>"

text \<open>\<open>update_for_parent_inclusion(it)\<close> (miner.h) subtracts what the insertion branch of
  \<open>UpdatePackagesForAdded\<close> subtracts.\<close>

definition update_for_parent_inclusion :: "MempoolEntryView \<Rightarrow> CTxMemPoolModifiedEntry \<Rightarrow> CTxMemPoolModifiedEntry" where
  "update_for_parent_inclusion parent e =
     e\<lparr>nSizeWithAncestors := nSizeWithAncestors e - GetTxSize parent,
       nModFeesWithAncestors := nModFeesWithAncestors e - GetModifiedFee parent,
       nSigOpCostWithAncestors := nSigOpCostWithAncestors e - GetSigOpCost parent\<rparr>"

definition onlyUnconfirmed :: "WorkingState \<Rightarrow> uint256 set \<Rightarrow> uint256 set" where
  "onlyUnconfirmed workState testSet = testSet - inBlock workState"

definition TestPackage :: "MinerEnv \<Rightarrow> WorkingState \<Rightarrow> uint64 \<Rightarrow> int \<Rightarrow> bool" where
  "TestPackage env workState packageSize packageSigOpsCost =
     (if nBlockWeight workState + WITNESS_SCALE_FACTOR * packageSize \<ge> nBlockMaxWeight env then False
      else if nBlockSigOpsCost workState + packageSigOpsCost \<ge> MAX_BLOCK_SIGOPS_COST env then False
      else True)"

fun package_transactions_loop :: "MinerEnv \<Rightarrow> uint256 list \<Rightarrow> uint64 \<Rightarrow> bool option" where
  "package_transactions_loop env [] nPotentialBlockSize = Some True"
| "package_transactions_loop env (it # rest) nPotentialBlockSize =
     (case poolTx env it of
        None \<Rightarrow> None
      | Some e \<Rightarrow>
          if \<not> IsFinalTx env (GetTx e) then Some False
          else if \<not> fIncludeWitness env \<and> HasWitness env (GetTx e) then Some False
          else if fNeedSizeAccounting env
          then (if nPotentialBlockSize + GetSerializeSize env (GetTx e) \<ge> nBlockMaxSize env then Some False
                else package_transactions_loop env rest (nPotentialBlockSize + GetSerializeSize env (GetTx e)))
          else package_transactions_loop env rest nPotentialBlockSize)"

definition TestPackageTransactions :: "MinerEnv \<Rightarrow> WorkingState \<Rightarrow> uint256 set \<Rightarrow> bool option" where
  "TestPackageTransactions env workState package =
     package_transactions_loop env (sorted_list_of_set package) (nBlockSize workState)"

definition AddToBlock :: "MinerEnv \<Rightarrow> WorkingState \<Rightarrow> uint256 \<Rightarrow> WorkingState option" where
  "AddToBlock env workState it =
     (case poolTx env it of
        None \<Rightarrow> None
      | Some e \<Rightarrow>
          Some (workState\<lparr>vtx := vtx workState @ [Some (GetTx e)],
                          vTxFees := vTxFees workState @ [GetFee e],
                          vTxSigOpsCost := vTxSigOpsCost workState @ [GetSigOpCost e],
                          nBlockSize := (if fNeedSizeAccounting env
                                         then nBlockSize workState + GetSerializeSize env (GetTx e)
                                         else nBlockSize workState),
                          nBlockWeight := nBlockWeight workState + GetTxWeight e,
                          nBlockTx := nBlockTx workState + 1,
                          nBlockSigOpsCost := nBlockSigOpsCost workState + GetSigOpCost e,
                          nFees := nFees workState + GetFee e,
                          inBlock := insert it (inBlock workState)\<rparr>))"

text \<open>The loop over the descendants of one added entry in \<open>UpdatePackagesForAdded\<close>; the state
  is \<open>mapModifiedTx\<close> and \<open>nDescendantsUpdated\<close>.\<close>

fun descendants_update_loop :: "MinerEnv \<Rightarrow> uint256 set \<Rightarrow> MempoolEntryView \<Rightarrow> uint256 list
      \<Rightarrow> CTxMemPoolModifiedEntry list \<times> int \<Rightarrow> (CTxMemPoolModifiedEntry list \<times> int) option" where
  "descendants_update_loop env alreadyAdded parent [] st = Some st"
| "descendants_update_loop env alreadyAdded parent (desc # rest) (ms, nDescendantsUpdated) =
     (if desc \<in> alreadyAdded then descendants_update_loop env alreadyAdded parent rest (ms, nDescendantsUpdated)
      else (case modified_find ms desc of
              None \<Rightarrow>
                (case poolTx env desc of
                   None \<Rightarrow> None
                 | Some de \<Rightarrow>
                     descendants_update_loop env alreadyAdded parent rest
                       (modified_insert env (update_for_parent_inclusion parent (mkModified desc de)) ms,
                        nDescendantsUpdated + 1))
            | Some mit \<Rightarrow>
                descendants_update_loop env alreadyAdded parent rest
                  (modified_insert env (update_for_parent_inclusion parent mit) (modified_erase ms desc),
                   nDescendantsUpdated + 1)))"

text \<open>\<open>UpdatePackagesForAdded(alreadyAdded, mapModifiedTx)\<close>: the result is \<open>mapModifiedTx\<close> and
  the returned count.\<close>

definition UpdatePackagesForAdded :: "MinerEnv \<Rightarrow> uint256 set \<Rightarrow> CTxMemPoolModifiedEntry list
      \<Rightarrow> (CTxMemPoolModifiedEntry list \<times> int) option" where
  "UpdatePackagesForAdded env alreadyAdded ms =
     foreach (\<lambda>it st. case poolTx env it of
                         None \<Rightarrow> None
                       | Some e \<Rightarrow> descendants_update_loop env alreadyAdded e
                                    (sorted_list_of_set (poolDescendants env it)) st)
       (sorted_list_of_set alreadyAdded) (ms, 0)"

definition SkipMapTxEntry :: "MinerEnv \<Rightarrow> WorkingState \<Rightarrow> uint256 \<Rightarrow> CTxMemPoolModifiedEntry list
      \<Rightarrow> uint256 set \<Rightarrow> bool \<Rightarrow> bool option" where
  "SkipMapTxEntry env workState it ms failedTx fOnlyOlderTransactions =
     (case poolTx env it of
        None \<Rightarrow> None
      | Some e \<Rightarrow>
          if modified_find ms it \<noteq> None \<or> it \<in> inBlock workState \<or> it \<in> failedTx then Some True
          else if fOnlyOlderTransactions \<and> GetTime e > timeNow env - RECENT_TX_THRESHOLD then Some True
          else Some False)"

text \<open>\<open>SortForBlock\<close>: \<open>CompareTxIterByAncestorCount\<close> (miner.h) orders by the count of
  ancestors and then by the transaction id.\<close>

definition SortForBlock :: "MinerEnv \<Rightarrow> uint256 set \<Rightarrow> uint256 list" where
  "SortForBlock env package =
     sort_key (\<lambda>it. case poolTx env it of None \<Rightarrow> 0 | Some e \<Rightarrow> unat (GetCountWithAncestors e))
       (sorted_list_of_set package)"

text \<open>
  One pass of the loop of \<open>addPackageTxs\<close>. The state of the loop is the rest \<open>mi\<close> of the
  \<open>ancestor_score\<close> index from the iterator on, \<open>mapModifiedTx\<close>, \<open>failedTx\<close>,
  \<open>nConsecutiveFailed\<close>, the working state, \<open>nPackagesSelected\<close> and \<open>nDescendantsUpdated\<close>. A
  pass ends the loop (\<open>Inl\<close>, for \<open>return\<close> and \<open>break\<close>) with the working state, the two
  counts and \<open>mapModifiedTx\<close>, or gives the state for the next pass (\<open>Inr\<close>, also for
  \<open>continue\<close>). It is \<open>None\<close> where an \<open>assert\<close> fails or an end iterator is read.
\<close>

type_synonym package_loop_state =
  "uint256 list \<times> CTxMemPoolModifiedEntry list \<times> uint256 set \<times> int \<times> WorkingState \<times> int \<times> int"

type_synonym package_loop_result =
  "WorkingState \<times> int \<times> int \<times> CTxMemPoolModifiedEntry list"

definition addPackageTxs_pass ::
  "MinerEnv \<Rightarrow> bool \<Rightarrow> package_loop_state \<Rightarrow> (package_loop_result + package_loop_state) option" where
  "addPackageTxs_pass env fIncludeRecentTransactions st =
     (case st of (mi, ms, failedTx, nConsecutiveFailed, workState, nPackagesSelected, nDescendantsUpdated) \<Rightarrow>
        case (if mi \<noteq> [] then SkipMapTxEntry env workState (hd mi) ms failedTx (\<not> fIncludeRecentTransactions)
              else Some False) of
          None \<Rightarrow> None
        | Some skip \<Rightarrow>
            if skip
            then Some (Inr (tl mi, ms, failedTx, nConsecutiveFailed, workState, nPackagesSelected,
                            nDescendantsUpdated))
            else
              case (if mi = [] then Some (True, mi)
                    else (case poolTx env (hd mi) of
                            None \<Rightarrow> None
                          | Some e \<Rightarrow>
                              if ms \<noteq> [] \<and> CompareModifiedEntry env (hd ms) (mkModified (hd mi) e)
                              then Some (True, mi) else Some (False, tl mi))) of
                None \<Rightarrow> None
              | Some (fUsingModified, mi') \<Rightarrow>
                  (let it = (if fUsingModified then iter (hd ms) else hd mi) in
                   if it \<in> inBlock workState then None
                   else
                     case poolTx env it of
                       None \<Rightarrow> None
                     | Some e \<Rightarrow>
                         (let packageSize = (if fUsingModified then nSizeWithAncestors (hd ms)
                                             else GetSizeWithAncestors e);
                              packageFees = (if fUsingModified then nModFeesWithAncestors (hd ms)
                                             else GetModFeesWithAncestors e);
                              packageSigOpsCost = (if fUsingModified then nSigOpCostWithAncestors (hd ms)
                                                   else GetSigOpCostWithAncestors e);
                              ms_failed = (if fUsingModified then tl ms else ms);
                              failedTx' = (if fUsingModified then insert it failedTx else failedTx)
                          in
                          if packageFees < minFee env packageSize
                          then Some (Inl (workState, nPackagesSelected, nDescendantsUpdated, ms))
                          else if \<not> TestPackage env workState packageSize packageSigOpsCost
                          then (if nConsecutiveFailed + 1 > MAX_CONSECUTIVE_FAILURES
                                   \<and> nBlockWeight workState > nBlockMaxWeight env - 4000
                                then Some (Inl (workState, nPackagesSelected, nDescendantsUpdated, ms_failed))
                                else Some (Inr (mi', ms_failed, failedTx', nConsecutiveFailed + 1, workState,
                                                nPackagesSelected, nDescendantsUpdated)))
                          else
                            (let ancestors = insert it (onlyUnconfirmed workState (poolAncestors env it)) in
                             case TestPackageTransactions env workState ancestors of
                               None \<Rightarrow> None
                             | Some final \<Rightarrow>
                                 if \<not> final
                                 then Some (Inr (mi', ms_failed, failedTx', nConsecutiveFailed, workState,
                                                 nPackagesSelected, nDescendantsUpdated))
                                 else
                                   (case foreach (\<lambda>a (w, m). map_option (\<lambda>w'. (w', modified_erase m a))
                                                                   (AddToBlock env w a))
                                           (SortForBlock env ancestors) (workState, ms) of
                                      None \<Rightarrow> None
                                    | Some (workState', ms') \<Rightarrow>
                                        (case UpdatePackagesForAdded env ancestors ms' of
                                           None \<Rightarrow> None
                                         | Some (ms'', n) \<Rightarrow>
                                             Some (Inr (mi', ms'', failedTx, 0, workState',
                                                        nPackagesSelected + 1,
                                                        nDescendantsUpdated + n))))))))"

text \<open>The loop \<open>while (mi != end || !mapModifiedTx.empty())\<close>: the result is \<open>None\<close> also where
  the loop does not end.\<close>

partial_function (option) addPackageTxs_loop ::
  "MinerEnv \<Rightarrow> bool \<Rightarrow> package_loop_state \<Rightarrow> package_loop_result option" where
  "addPackageTxs_loop env fIncludeRecentTransactions st =
     (case st of (mi, ms, failedTx, nConsecutiveFailed, workState, nPackagesSelected, nDescendantsUpdated) \<Rightarrow>
        if mi = [] \<and> ms = [] then Some (workState, nPackagesSelected, nDescendantsUpdated, ms)
        else (case addPackageTxs_pass env fIncludeRecentTransactions st of
                None \<Rightarrow> None
              | Some (Inl r) \<Rightarrow> Some r
              | Some (Inr st') \<Rightarrow> addPackageTxs_loop env fIncludeRecentTransactions st'))"

definition addPackageTxs :: "MinerEnv \<Rightarrow> WorkingState \<Rightarrow> int \<Rightarrow> int \<Rightarrow> bool \<Rightarrow> CTxMemPoolModifiedEntry list
     \<Rightarrow> (WorkingState \<times> int \<times> int \<times> CTxMemPoolModifiedEntry list) option" where
  "addPackageTxs env workState nPackagesSelected nDescendantsUpdated fIncludeRecentTransactions mapModifiedTx =
     addPackageTxs_loop env fIncludeRecentTransactions
       (byAncestorScore env, mapModifiedTx, {}, 0, workState, nPackagesSelected, nDescendantsUpdated)"

text \<open>
  The block template: the transactions of the block and the two vectors beside them. The
  header fields come from chain functions outside the file and are left out.
\<close>

record CBlockTemplate =
  block_vtx :: "CTransaction option list"
  template_vTxFees :: "CAmount list"
  template_vTxSigOpsCost :: "int list"

datatype miner_error = TestBlockValidity_failed

text \<open>
  \<open>CreateNewBlock(scriptPubKeyIn, fMineWitnessTx)\<close>. The two arguments only reach the
  coinbase script and \<open>fIncludeWitness\<close>, which is a field of the environment. The result is
  \<open>Some (Inl e)\<close> where the source throws, and \<open>None\<close> where \<open>addPackageTxs\<close> has no result.
\<close>

definition CreateNewCoinbase :: "MinerEnv \<Rightarrow> CAmount \<Rightarrow> CTransaction" where
  "CreateNewCoinbase env fees =
     (let coinbase_vin = [\<lparr>prevout = (0, 4294967295)\<rparr>];
          coinbase_vout = [\<lparr>nValue = fees + blockSubsidy env\<rparr>]
      in GenerateCoinbaseCommitment env
           \<lparr>GetHash = txid env coinbase_vin coinbase_vout, vin = coinbase_vin, vout = coinbase_vout\<rparr>)"

definition CreateNewBlock :: "MinerEnv \<Rightarrow> (miner_error + CBlockTemplate) option" where
  "CreateNewBlock env =
     (let workState0 = \<lparr>vtx = [None], vTxFees = [- 1], vTxSigOpsCost = [- 1],
                        nBlockSize = initBlockSize env, nBlockWeight = initBlockWeight env, nBlockTx = 0,
                        nBlockSigOpsCost = initBlockSigOpsCost env, nFees = 0, inBlock = {}\<rparr>
      in case addPackageTxs env workState0 0 0 True [] of
           None \<Rightarrow> None
         | Some (workState, nPackagesSelected, nDescendantsUpdated, mapModifiedTx) \<Rightarrow>
             (let coinbaseTx = CreateNewCoinbase env (nFees workState);
                  vtx' = (vtx workState)[0 := Some coinbaseTx];
                  vTxFees' = (vTxFees workState)[0 := - nFees workState];
                  vTxSigOpsCost' = (vTxSigOpsCost workState)
                                     [0 := 4 * GetLegacySigOpCount env coinbaseTx]
              in if \<not> TestBlockValidity env vtx' then Some (Inl TestBlockValidity_failed)
                 else Some (Inr \<lparr>block_vtx = vtx', template_vTxFees = vTxFees',
                                  template_vTxSigOpsCost = vTxSigOpsCost'\<rparr>)))"

subsection \<open>Fee rates\<close>

text \<open>
  Modelled from the spec: \<open>CFeeRate\<close> (amount.cpp) is not among the sources. A fee rate is a
  fee per 1000 bytes. \<open>fee_for\<close> is the spec's \<open>fee_for(size) = (fee_per_kB * size) / 1000\<close>,
  rounding toward zero but at least 0, which is what \<open>blockMinFeeRate.GetFee\<close> stands for;
  \<open>fee_rate\<close> is the rate of a fee paid for a size, with the spec's truncating division.
\<close>

definition fee_for :: "CAmount \<Rightarrow> uint64 \<Rightarrow> CAmount" where
  "fee_for fee_per_kB nSize =
     (if fee_per_kB * uint nSize < 0 then 0 else fee_per_kB * uint nSize div 1000)"

definition fee_rate :: "CAmount \<Rightarrow> uint64 \<Rightarrow> CAmount" where
  "fee_rate fee nSize =
     (if nSize = 0 then 0
      else if fee < 0 then - ((- fee) * 1000 div uint nSize)
      else fee * 1000 div uint nSize)"

subsection \<open>Sample values of the block assembly\<close>

text \<open>A pool with one entry that pays 1000 for 250 bytes, and a minimum fee of 20 per byte.\<close>

definition viewA :: MempoolEntryView where
  "viewA = \<lparr>GetTx = txA, GetFee = 1000, GetModifiedFee = 1000, GetTxSize = 250, GetTxWeight = 1000,
            GetTime = 0, GetSigOpCost = 4, GetCountWithAncestors = 1, GetSizeWithAncestors = 250,
            GetModFeesWithAncestors = 1000, GetSigOpCostWithAncestors = 4\<rparr>"

definition minerEnv0 :: MinerEnv where
  "minerEnv0 = \<lparr>poolTx = [7 \<mapsto> viewA], byAncestorScore = [7], poolAncestors = (\<lambda>it. {}),
                poolDescendants = (\<lambda>it. {it}), minFee = (\<lambda>n. 20 * uint n),
                nBlockMaxWeight = 3996000, nBlockMaxSize = 750000, fNeedSizeAccounting = True,
                fIncludeWitness = True, MAX_BLOCK_SIGOPS_COST = 80000,
                CompareModifiedEntry = (\<lambda>a b. nModFeesWithAncestors a * uint (nSizeWithAncestors b)
                                               > nModFeesWithAncestors b * uint (nSizeWithAncestors a)),
                IsFinalTx = (\<lambda>t. True), HasWitness = (\<lambda>t. False), GetSerializeSize = (\<lambda>t. 250),
                timeNow = 1000, blockSubsidy = 1250000000, GenerateCoinbaseCommitment = (\<lambda>t. t),
                txid = (\<lambda>i v. 99), GetLegacySigOpCount = (\<lambda>t. 0), TestBlockValidity = (\<lambda>v. True),
                initBlockSize = 1000, initBlockWeight = 4000, initBlockSigOpsCost = 400\<rparr>"

text \<open>
  The same pool with an entry that pays 250 for 250 bytes, which is 1000 per 1000 bytes,
  and a minimum fee rate of 1001 per 1000 bytes.
\<close>

definition viewL :: MempoolEntryView where
  "viewL = \<lparr>GetTx = txA, GetFee = 250, GetModifiedFee = 250, GetTxSize = 250, GetTxWeight = 1000,
            GetTime = 0, GetSigOpCost = 4, GetCountWithAncestors = 1, GetSizeWithAncestors = 250,
            GetModFeesWithAncestors = 250, GetSigOpCostWithAncestors = 4\<rparr>"

definition minerEnv1 :: MinerEnv where
  "minerEnv1 = minerEnv0\<lparr>poolTx := [7 \<mapsto> viewL], minFee := fee_for 1001\<rparr>"

chapter \<open>The properties\<close>

section \<open>Dirty entries\<close>

lemma IsDirty_SetDirty: "IsDirty (SetDirty e)"
  by (simp add: IsDirty_def SetDirty_def)

lemma UpdateState_dirty: "IsDirty e \<Longrightarrow> UpdateState e s f c = e"
  by (simp add: UpdateState_def)

lemma UpdateState_seq_dirty:
  "IsDirty e \<Longrightarrow> foldl (\<lambda>x (s, f, c). UpdateState x s f c) e mods = e"
  by (induction mods) (auto simp: UpdateState_dirty)

text \<open>
  Claim C3, as the code has it. \<open>SetDirty\<close> sets the size and the fees of the entry with
  its descendants to the entry's own size and fee, but the count to 0, not to 1: the zero
  count is the dirty flag itself. The three values stay so under every later sequence of
  \<open>UpdateState\<close> calls, the only other writer of these fields.
\<close>

theorem C3_dirty_aggregates:
  "IsDirty (foldl (\<lambda>x (s, f, c). UpdateState x s f c) (SetDirty e) mods) \<and>
   nCountWithDescendants (foldl (\<lambda>x (s, f, c). UpdateState x s f c) (SetDirty e) mods) = 0 \<and>
   nSizeWithDescendants (foldl (\<lambda>x (s, f, c). UpdateState x s f c) (SetDirty e) mods) = nTxSize e \<and>
   nFeesWithDescendants (foldl (\<lambda>x (s, f, c). UpdateState x s f c) (SetDirty e) mods) = nFee e"
  by (simp add: UpdateState_seq_dirty IsDirty_SetDirty) (simp add: SetDirty_def)

text \<open>
  Claim C3 as the specification states it fails: a freshly constructed entry that is
  marked dirty has a descendant count of 0, while the claim says 1.
\<close>

theorem C3_dirty_count_counterexample:
  "IsDirty (SetDirty (mkEntry \<lparr>GetHash = 7, vin = [], vout = []\<rparr> 1000 0 1 True 250 250 300)) \<and>
   nCountWithDescendants
     (SetDirty (mkEntry \<lparr>GetHash = 7, vin = [], vout = []\<rparr> 1000 0 1 True 250 250 300)) \<noteq> 1"
  by (simp add: IsDirty_def SetDirty_def mkEntry_def)

text \<open>
  Claim C10: \<open>UpdateState\<close> leaves a dirty entry as it is, whatever the three modifiers
  are; hence no sequence of calls changes it, and the aggregates stay at the values
  \<open>SetDirty\<close> assigned.
\<close>

theorem C10_UpdateState_dirty_noop:
  "IsDirty e \<Longrightarrow>
     UpdateState e modifySize modifyFee modifyCount = e \<and>
     foldl (\<lambda>x (s, f, c). UpdateState x s f c) e mods = e"
  by (simp add: UpdateState_dirty UpdateState_seq_dirty)

theorem C10_UpdateState_dirty_noop_witness:
  "IsDirty (SetDirty (mkEntry \<lparr>GetHash = 7, vin = [], vout = []\<rparr> 1000 0 1 True 250 250 300)) \<and>
   UpdateState (SetDirty (mkEntry \<lparr>GetHash = 7, vin = [], vout = []\<rparr> 1000 0 1 True 250 250 300))
      250 2000 1
     = SetDirty (mkEntry \<lparr>GetHash = 7, vin = [], vout = []\<rparr> 1000 0 1 True 250 250 300) \<and>
   foldl (\<lambda>x (s, f, c). UpdateState x s f c)
      (SetDirty (mkEntry \<lparr>GetHash = 7, vin = [], vout = []\<rparr> 1000 0 1 True 250 250 300))
      [(250, 2000, 1), (- 250, - 2000, - 1)]
     = SetDirty (mkEntry \<lparr>GetHash = 7, vin = [], vout = []\<rparr> 1000 0 1 True 250 250 300)"
proof -
  have d: "IsDirty (SetDirty (mkEntry \<lparr>GetHash = 7, vin = [], vout = []\<rparr> 1000 0 1 True 250 250 300))"
    by (simp add: IsDirty_def SetDirty_def)
  from d C10_UpdateState_dirty_noop [OF d, of 250 2000 1 "[(250, 2000, 1), (- 250, - 2000, - 1)]"]
  show ?thesis by blast
qed

section \<open>Iteration\<close>

lemma foreach_invariant:
  "foreach f xs s = Some s' \<Longrightarrow> P s \<Longrightarrow>
   (\<And>x a b. x \<in> set xs \<Longrightarrow> P a \<Longrightarrow> f x a = Some b \<Longrightarrow> P b) \<Longrightarrow> P s'"
proof (induction xs arbitrary: s)
  case Nil
  then show ?case by simp
next
  case (Cons x xs)
  from Cons.prems(1) obtain s1 where s1: "f x s = Some s1" and r: "foreach f xs s1 = Some s'"
    by (auto split: option.split_asm)
  have "P s1" by (rule Cons.prems(3) [OF _ Cons.prems(2) s1]) simp
  show ?case
  proof (rule Cons.IH [OF r \<open>P s1\<close>])
    fix y a b assume "y \<in> set xs" "P a" "f y a = Some b"
    then show "P b" using Cons.prems(3) [of y a b] by simp
  qed
qed

section \<open>What the removal paths leave unchanged\<close>

lemma UpdateChild_frame:
  "mapDeltas (UpdateChild mu p e c a) = mapDeltas p" "mapTx (UpdateChild mu p e c a) = mapTx p"
  by (simp_all add: UpdateChild_def Let_def)

lemma UpdateParent_frame:
  "mapDeltas (UpdateParent mu p e c a) = mapDeltas p" "mapTx (UpdateParent mu p e c a) = mapTx p"
  by (simp_all add: UpdateParent_def Let_def)

lemma same_frame_refl: "same_frame p p"
  by (simp add: same_frame_def)

lemma same_frame_trans: "same_frame p q \<Longrightarrow> same_frame q r \<Longrightarrow> same_frame p r"
  by (simp add: same_frame_def)

lemma same_frame_modify:
  "mapTx q a = Some e \<Longrightarrow> same_frame q (q\<lparr>mapTx := (mapTx q)(a \<mapsto> e')\<rparr>)"
  by (auto simp: same_frame_def)

lemma same_frame_UpdateChild: "same_frame p a \<Longrightarrow> same_frame p (UpdateChild mu a x h add)"
  by (simp add: same_frame_def UpdateChild_frame)

lemma same_frame_UpdateParent: "same_frame p a \<Longrightarrow> same_frame p (UpdateParent mu a x h add)"
  by (simp add: same_frame_def UpdateParent_frame)

lemma UpdateAncestorsOf_frame:
  assumes "UpdateAncestorsOf mu p add hash A = Some p'"
  shows "same_frame p p'"
proof -
  from assms obtain ph p1 and it :: CTxMemPoolEntry where
    a: "foreach (\<lambda>phash q. if mapTx q phash = None then None
                                else Some (UpdateChild mu q phash hash add))
               (sorted_list_of_set ph) p = Some p1"
    and b: "foreach (\<lambda>ancestorHash q.
                  case mapTx q ancestorHash of
                    None \<Rightarrow> None
                  | Some updateIt \<Rightarrow>
                      Some (q\<lparr>mapTx := (mapTx q)(ancestorHash \<mapsto>
                              UpdateState updateIt ((if add then 1 else - 1) * nTxSize it)
                                ((if add then 1 else - 1) * nFee it) (if add then 1 else - 1))\<rparr>))
         (sorted_list_of_set A) p1 = Some p'"
    unfolding UpdateAncestorsOf_def bind_eq_Some_conv by (elim exE conjE) (rule that, assumption+)
  have 1: "same_frame p p1"
    by (rule foreach_invariant [where P = "same_frame p", OF a same_frame_refl])
       (auto split: if_split_asm intro: same_frame_UpdateChild)
  have 2: "same_frame p p'"
  proof (rule foreach_invariant [where P = "same_frame p", OF b 1])
    fix x a b
    assume "same_frame p a" and
      "(case mapTx a x of None \<Rightarrow> None
        | Some updateIt \<Rightarrow>
                      Some (a\<lparr>mapTx := (mapTx a)(x \<mapsto>
                              UpdateState updateIt ((if add then 1 else - 1) * nTxSize it)
                                ((if add then 1 else - 1) * nFee it) (if add then 1 else - 1))\<rparr>)) = Some b"
    then show "same_frame p b"
      by (auto split: option.split_asm intro: same_frame_trans same_frame_modify)
  qed
  then show ?thesis .
qed

lemma UpdateChildrenForRemoval_frame:
  assumes "UpdateChildrenForRemoval mu p hash = Some p'"
  shows "same_frame p p'"
proof -
  from assms obtain ch where
    a: "foreach (\<lambda>updateIt q. if mapTx q updateIt = None then None
                             else Some (UpdateParent mu q updateIt hash False))
         (sorted_list_of_set ch) p = Some p'"
    unfolding UpdateChildrenForRemoval_def bind_eq_Some_conv by (elim exE conjE) (rule that, assumption+)
  show ?thesis
    by (rule foreach_invariant [where P = "same_frame p", OF a same_frame_refl])
       (auto split: if_split_asm intro: same_frame_UpdateParent)
qed

lemma UpdateForRemoveFromMempool_frame:
  assumes "UpdateForRemoveFromMempool mu p S = Some p'"
  shows "same_frame p p'"
proof -
  from assms obtain p1 where
    a: "foreach (\<lambda>removeHash q.
                 do {
                   entry \<leftarrow> mapTx q removeHash;
                   r \<leftarrow> CalculateMemPoolAncestors q entry {} nNoLimit nNoLimit nNoLimit nNoLimit;
                   UpdateAncestorsOf mu q False removeHash (snd r)
                 })
               (sorted_list_of_set S) p = Some p1"
    and b: "foreach (\<lambda>removeHash q. UpdateChildrenForRemoval mu q removeHash)
         (sorted_list_of_set S) p1 = Some p'"
    unfolding UpdateForRemoveFromMempool_def bind_eq_Some_conv by (elim exE conjE) (rule that, assumption+)
  have 1: "same_frame p p1"
    by (rule foreach_invariant [where P = "same_frame p", OF a same_frame_refl])
       (auto simp: bind_eq_Some_conv intro: same_frame_trans UpdateAncestorsOf_frame)
  show "same_frame p p'"
    by (rule foreach_invariant [where P = "same_frame p", OF b 1])
       (auto intro: same_frame_trans UpdateChildrenForRemoval_frame)
qed

lemma removeUnchecked_frame:
  "removeUnchecked mu p hash = Some p' \<Longrightarrow>
     mapDeltas p' = mapDeltas p \<and> dom (mapTx p') = dom (mapTx p) - {hash}"
  unfolding removeUnchecked_def by (clarsimp simp: bind_eq_Some_conv)

lemma remove_SomeD:
  assumes "remove mu p origTx removed fRecursive = Some (p', removed')"
  shows "\<exists>S. RemoveStaged mu p S = Some p'"
  using assms
  apply (simp only: remove_def Let_def bind_eq_Some_conv)
  apply (elim exE conjE)
  apply (simp only: option.inject prod.inject)
  apply blast
  done

lemma RemoveStaged_frame:
  assumes "RemoveStaged mu p S = Some p'"
  shows "mapDeltas p' = mapDeltas p \<and> dom (mapTx p) - S \<subseteq> dom (mapTx p')"
proof -
  from assms obtain p1 where a: "UpdateForRemoveFromMempool mu p S = Some p1"
    and b: "foreach (\<lambda>hash q. removeUnchecked mu q hash) (sorted_list_of_set S) p1 = Some p'"
    unfolding RemoveStaged_def bind_eq_Some_conv by (elim exE conjE) (rule that, assumption+)
  from UpdateForRemoveFromMempool_frame [OF a]
  have 1: "mapDeltas p1 = mapDeltas p \<and> dom (mapTx p) - S \<subseteq> dom (mapTx p1)"
    by (simp add: same_frame_def)
  have sub: "set (sorted_list_of_set S) \<subseteq> S"
    by (cases "finite S") auto
  show ?thesis
  proof (rule foreach_invariant [where P = "\<lambda>q. mapDeltas q = mapDeltas p \<and> dom (mapTx p) - S \<subseteq> dom (mapTx q)", OF b 1])
    fix x a b
    assume x: "x \<in> set (sorted_list_of_set S)"
      and a: "mapDeltas a = mapDeltas p \<and> dom (mapTx p) - S \<subseteq> dom (mapTx a)"
      and r: "removeUnchecked mu a x = Some b"
    from removeUnchecked_frame [OF r]
    have d: "dom (mapTx b) = dom (mapTx a) - {x}" and m: "mapDeltas b = mapDeltas a" by simp_all
    from x sub have "x \<in> S" by auto
    with a d m show "mapDeltas b = mapDeltas p \<and> dom (mapTx p) - S \<subseteq> dom (mapTx b)"
      by auto
  qed
qed

lemma remove_frame:
  assumes "remove mu p origTx removed fRecursive = Some (p', removed')"
  shows "mapDeltas p' = mapDeltas p"
  using remove_SomeD [OF assms] RemoveStaged_frame by blast

lemma removeConflicts_frame:
  assumes "removeConflicts mu p t removed = Some (p', removed')"
  shows "mapDeltas p' = mapDeltas p"
proof -
  have "mapDeltas (fst (p', removed')) = mapDeltas p"
  proof (rule foreach_invariant [where P = "\<lambda>a. mapDeltas (fst a) = mapDeltas p", OF assms [unfolded removeConflicts_def]])
    show "mapDeltas (fst (p, removed)) = mapDeltas p" by simp
  next
    fix x a b
    assume a: "mapDeltas (fst a) = mapDeltas p"
      and s: "(case a of (q, rem) \<Rightarrow>
                case mapNextTx q (prevout x) of
                  None \<Rightarrow> Some (q, rem)
                | Some (txConflict, i) \<Rightarrow>
                    if GetHash txConflict \<noteq> GetHash t then remove mu q txConflict rem True
                    else Some (q, rem)) = Some b"
    obtain q1 l1 where ab: "a = (q1, l1)" by (cases a)
    obtain q2 l2 where bb: "b = (q2, l2)" by (cases b)
    from s ab bb have "b = a \<or> (\<exists>c. remove mu q1 c l1 True = Some (q2, l2))"
      by (auto split: option.split_asm if_split_asm)
    with a ab bb show "mapDeltas (fst b) = mapDeltas p"
      by (auto dest: remove_frame)
  qed
  then show ?thesis by simp
qed

lemma Expire_frame:
  assumes "Expire mu p byTime time = Some (p', n)"
  shows "mapDeltas p' = mapDeltas p"
proof -
  from assms have "\<exists>S. RemoveStaged mu p S = Some p'"
    apply (simp only: Expire_def bind_eq_Some_conv)
    apply (elim exE conjE)
    apply (simp only: option.inject prod.inject)
    apply blast
    done
  then obtain S where "RemoveStaged mu p S = Some p'" ..
  from RemoveStaged_frame [OF this] show ?thesis by simp
qed

lemma SurplusTrim_frame:
  assumes "SurplusTrim mu p byScore rnd dgt getFee multiplier feePerK usageToTrim = Some p'"
  shows "mapDeltas p' = mapDeltas p"
proof -
  from assms have "p' = p \<or> (\<exists>S. RemoveStaged mu p S = Some p')"
    unfolding SurplusTrim_def bind_eq_Some_conv by (auto split: if_split_asm)
  then show ?thesis by (auto dest: RemoveStaged_frame)
qed

lemma removeForBlock_loop_frame:
  "foreach (\<lambda>t (q, confl).
                 do {
                   r1 \<leftarrow> remove mu q t [] False;
                   r2 \<leftarrow> removeConflicts mu (fst r1) t confl;
                   Some (ClearPrioritisation (fst r2) (GetHash t), snd r2)
                 })
               blockTxs (p, conflicts) = Some (p', conflicts') \<Longrightarrow>
   mapDeltas p' = (\<lambda>h. if h \<in> GetHash ` set blockTxs then None else mapDeltas p h)"
proof (induction blockTxs arbitrary: p conflicts)
  case Nil
  then show ?case by simp
next
  case (Cons t blockTxs)
  from Cons.prems obtain q1 l1 q2 l2 where
    r1: "remove mu p t [] False = Some (q1, l1)"
    and r2: "removeConflicts mu q1 t conflicts = Some (q2, l2)"
    and rest: "foreach (\<lambda>t (q, confl).
                 do {
                   r1 \<leftarrow> remove mu q t [] False;
                   r2 \<leftarrow> removeConflicts mu (fst r1) t confl;
                   Some (ClearPrioritisation (fst r2) (GetHash t), snd r2)
                 })
               blockTxs (ClearPrioritisation q2 (GetHash t), l2) = Some (p', conflicts')"
    by (auto simp: bind_eq_Some_conv split: option.split_asm)
  from remove_frame [OF r1] removeConflicts_frame [OF r2] have "mapDeltas q2 = mapDeltas p" by simp
  with Cons.IH [OF rest] show ?case
    by (auto simp: ClearPrioritisation_def fun_eq_iff)
qed

lemma removeForBlock_deltas:
  assumes "removeForBlock mu p blockTxs nBlockHeight conflicts fCurrentEstimate = Some (p', conflicts', entries)"
  shows "mapDeltas p' = (\<lambda>h. if h \<in> GetHash ` set blockTxs then None else mapDeltas p h)"
proof -
  from assms have "foreach (\<lambda>t (q, confl).
                 do {
                   r1 \<leftarrow> remove mu q t [] False;
                   r2 \<leftarrow> removeConflicts mu (fst r1) t confl;
                   Some (ClearPrioritisation (fst r2) (GetHash t), snd r2)
                 })
               blockTxs (p, conflicts) = Some (p', conflicts')"
    unfolding removeForBlock_def Let_def bind_eq_Some_conv by (cases "foreach (\<lambda>t (q, confl).
                 do {
                   r1 \<leftarrow> remove mu q t [] False;
                   r2 \<leftarrow> removeConflicts mu (fst r1) t confl;
                   Some (ClearPrioritisation (fst r2) (GetHash t), snd r2)
                 })
               blockTxs (p, conflicts)") auto
  then show ?thesis by (rule removeForBlock_loop_frame)
qed

subsection \<open>The removal paths on the sample pool\<close>

lemma calc_A: "CalculateMemPoolAncestors poolA entryA {} nNoLimit nNoLimit nNoLimit nNoLimit = Some (None, {})"
  by (simp add: CalculateMemPoolAncestors_def entryA_def mkEntry_def txA_def poolA_def ancestors_loop.simps)

lemma desc_A: "CalculateDescendants poolA 7 {} = Some {7}"
  apply (simp add: CalculateDescendants_def)
  apply (subst descendants_loop.simps)
  apply (simp add: stage_children_def GetMemPoolChildren_def poolA_def)
  apply (subst descendants_loop.simps)
  apply simp
  done

lemma staged_A: "RemoveStaged mu0 poolA {7} = Some poolA_removed"
  apply (simp add: RemoveStaged_def UpdateForRemoveFromMempool_def)
  apply (simp add: poolA_def [THEN arg_cong [where f = mapTx]] calc_A)
  apply (simp add: UpdateAncestorsOf_def UpdateChildrenForRemoval_def GetMemPoolParents_def GetMemPoolChildren_def
      removeUnchecked_def poolA_def poolA_removed_def entryA_def mkEntry_def txA_def links_at_def DynamicUsage_set_def)
  done

lemma remove_A: "remove mu0 poolA txA [] True = Some (poolA_removed, [txA])"
  apply (simp add: remove_def txA_def [THEN arg_cong [where f = GetHash]] poolA_def [THEN arg_cong [where f = mapTx]])
  apply (simp add: desc_A staged_A)
  apply (simp add: poolA_def entryA_def mkEntry_def)
  done

lemma remove_A_nonrec: "remove mu0 poolA txA [] False = Some (poolA_removed, [txA])"
  apply (simp add: remove_def txA_def [THEN arg_cong [where f = GetHash]] poolA_def [THEN arg_cong [where f = mapTx]])
  apply (simp add: staged_A)
  apply (simp add: poolA_def entryA_def mkEntry_def)
  done

lemma conflicts_A: "removeConflicts mu0 poolA txC [] = Some (poolA_removed, [txA])"
  apply (simp add: removeConflicts_def txC_def poolA_def [THEN arg_cong [where f = mapNextTx]])
  apply (simp add: txA_def [THEN arg_cong [where f = GetHash]] remove_A)
  done

lemma expire_A: "Expire mu0 poolA [7] 10 = Some (poolA_removed, 1)"
  apply (simp add: Expire_def poolA_def [THEN arg_cong [where f = mapTx]])
  apply (simp add: entryA_def mkEntry_def txA_def [THEN arg_cong [where f = GetHash]])
  apply (simp add: desc_A staged_A)
  done

lemma block_A: "removeForBlock mu0 poolA [txA] 100 [] True
    = Some (poolA_removed\<lparr>mapDeltas := Map.empty\<rparr>, [], [entryA])"
  apply (simp add: removeForBlock_def remove_A_nonrec)
  apply (simp add: removeConflicts_def txA_def poolA_removed_def ClearPrioritisation_def poolA_def)
  done

lemma spenders_A: "spenders poolA 7 = []"
  by (simp add: spenders_def poolA_def)

lemma walk_A: "trim_walk mu0 poolA {} {} 0 0 2000 100 10 0 ([7], {}, 0, 0, 0, 0) = Some (True, {7}, 1000, 250, 812, 1)"
  apply (subst trim_walk.simps)
  apply (simp add: poolA_def [THEN arg_cong [where f = mapTx]] spenders_A)
  apply (subst trim_walk.simps)
  apply (simp add: entryA_def mkEntry_def GuessDynamicMemoryUsage_def mu0_def txA_def)
  done

lemma trim_A: "TrimMempool mu0 poolA [7] (\<lambda>k. 0) exact_gt 400 {} 0 100 2000 False 100 {} 0 = Some (True, {7}, 1000)"
  apply (simp add: TrimMempool_def poolA_def [THEN arg_cong [where f = mapTx]])
  apply (simp add: entryA_def [THEN arg_cong [where f = tx]] mkEntry_def txA_def [THEN arg_cong [where f = GetHash]])
  apply (simp add: walk_A)
  apply (simp add: entryA_def mkEntry_def exact_gt_def)
  done

lemma surplus_A: "SurplusTrim mu0 poolA [7] (\<lambda>k. 0) exact_gt GetFee0 1 20000 400 = Some poolA_removed"
  apply (simp add: SurplusTrim_def GetFee0_def)
  apply (simp add: trim_A staged_A)
  done

subsection \<open>Prioritisation deltas and removal\<close>

text \<open>
  Claim C8, as the code has it. \<open>remove\<close> (recursive or not), \<open>removeConflicts\<close>,
  \<open>RemoveStaged\<close> (the eviction of a staged set), \<open>SurplusTrim\<close> and \<open>Expire\<close> leave
  \<open>mapDeltas\<close> as it is, so \<open>ApplyDeltas\<close> yields the same deltas for every transaction id
  after the removal as before. \<open>removeForBlock\<close> is different: it calls
  \<open>ClearPrioritisation\<close> for every transaction of the block, so afterwards \<open>ApplyDeltas\<close>
  adds nothing for the ids of the block's transactions, and the same deltas as before for
  every other id.
\<close>

theorem C8_deltas_persist_except_block:
  "(remove mu p origTx removed fRecursive = Some (pr, removed')
      \<longrightarrow> ApplyDeltas pr txhash d = ApplyDeltas p txhash d) \<and>
   (removeConflicts mu p t removed = Some (pc, removed'')
      \<longrightarrow> ApplyDeltas pc txhash d = ApplyDeltas p txhash d) \<and>
   (RemoveStaged mu p stage = Some ps
      \<longrightarrow> ApplyDeltas ps txhash d = ApplyDeltas p txhash d) \<and>
   (SurplusTrim mu p byScore rnd dgt getFee multiplier feePerK usageToTrim = Some pt
      \<longrightarrow> ApplyDeltas pt txhash d = ApplyDeltas p txhash d) \<and>
   (Expire mu p byTime time = Some (pe, n)
      \<longrightarrow> ApplyDeltas pe txhash d = ApplyDeltas p txhash d) \<and>
   (removeForBlock mu p blockTxs nBlockHeight conflicts fCurrentEstimate = Some (pb, conflicts', entries)
      \<longrightarrow> ApplyDeltas pb txhash d = (if txhash \<in> GetHash ` set blockTxs then d else ApplyDeltas p txhash d))"
proof (intro conjI impI)
  assume "remove mu p origTx removed fRecursive = Some (pr, removed')"
  from remove_frame [OF this] show "ApplyDeltas pr txhash d = ApplyDeltas p txhash d"
    by (simp add: ApplyDeltas_def)
next
  assume "removeConflicts mu p t removed = Some (pc, removed'')"
  from removeConflicts_frame [OF this] show "ApplyDeltas pc txhash d = ApplyDeltas p txhash d"
    by (simp add: ApplyDeltas_def)
next
  assume "RemoveStaged mu p stage = Some ps"
  from RemoveStaged_frame [OF this] show "ApplyDeltas ps txhash d = ApplyDeltas p txhash d"
    by (simp add: ApplyDeltas_def)
next
  assume "SurplusTrim mu p byScore rnd dgt getFee multiplier feePerK usageToTrim = Some pt"
  from SurplusTrim_frame [OF this] show "ApplyDeltas pt txhash d = ApplyDeltas p txhash d"
    by (simp add: ApplyDeltas_def)
next
  assume "Expire mu p byTime time = Some (pe, n)"
  from Expire_frame [OF this] show "ApplyDeltas pe txhash d = ApplyDeltas p txhash d"
    by (simp add: ApplyDeltas_def)
next
  assume "removeForBlock mu p blockTxs nBlockHeight conflicts fCurrentEstimate = Some (pb, conflicts', entries)"
  from removeForBlock_deltas [OF this]
  show "ApplyDeltas pb txhash d = (if txhash \<in> GetHash ` set blockTxs then d else ApplyDeltas p txhash d)"
    by (simp add: ApplyDeltas_def)
qed

theorem C8_deltas_persist_except_block_witness:
  "remove mu0 poolA txA [] True = Some (poolA_removed, [txA]) \<and>
   removeConflicts mu0 poolA txC [] = Some (poolA_removed, [txA]) \<and>
   RemoveStaged mu0 poolA {7} = Some poolA_removed \<and>
   SurplusTrim mu0 poolA [7] (\<lambda>k. 0) exact_gt GetFee0 1 20000 400 = Some poolA_removed \<and>
   Expire mu0 poolA [7] 10 = Some (poolA_removed, 1) \<and>
   ApplyDeltas poolA_removed 7 (0, 0) = ApplyDeltas poolA 7 (0, 0) \<and>
   removeForBlock mu0 poolA [txA] 100 [] True = Some (poolA_removed\<lparr>mapDeltas := Map.empty\<rparr>, [], [entryA]) \<and>
   ApplyDeltas (poolA_removed\<lparr>mapDeltas := Map.empty\<rparr>) 7 (0, 0) = (0, 0) \<and>
   ApplyDeltas (poolA_removed\<lparr>mapDeltas := Map.empty\<rparr>) 8 (0, 0) = ApplyDeltas poolA 8 (0, 0)"
proof -
  note T = C8_deltas_persist_except_block
    [where mu = mu0 and p = poolA and origTx = txA and removed = "[]" and fRecursive = True
       and pr = poolA_removed and removed' = "[txA]" and d = "(0, 0)"
       and t = txC and pc = poolA_removed and removed'' = "[txA]"
       and stage = "{7}" and ps = poolA_removed
       and byScore = "[7]" and rnd = "\<lambda>k. 0" and dgt = exact_gt and getFee = GetFee0
       and multiplier = 1 and feePerK = 20000 and usageToTrim = 400 and pt = poolA_removed
       and byTime = "[7]" and time = 10 and pe = poolA_removed and n = 1
       and blockTxs = "[txA]" and nBlockHeight = 100 and conflicts = "[]" and fCurrentEstimate = True
       and pb = "poolA_removed\<lparr>mapDeltas := Map.empty\<rparr>" and conflicts' = "[]"
       and entries = "[entryA]"]
  from T [where txhash = 7] remove_A
  have a: "ApplyDeltas poolA_removed 7 (0, 0) = ApplyDeltas poolA 7 (0, 0)" by blast
  from T [where txhash = 7] block_A
  have "ApplyDeltas (poolA_removed\<lparr>mapDeltas := Map.empty\<rparr>) 7 (0, 0)
        = (if 7 \<in> GetHash ` set [txA] then (0, 0) else ApplyDeltas poolA 7 (0, 0))" by blast
  then have b: "ApplyDeltas (poolA_removed\<lparr>mapDeltas := Map.empty\<rparr>) 7 (0, 0) = (0, 0)"
    by (simp add: txA_def)
  from T [where txhash = 8] block_A
  have "ApplyDeltas (poolA_removed\<lparr>mapDeltas := Map.empty\<rparr>) 8 (0, 0)
        = (if 8 \<in> GetHash ` set [txA] then (0, 0) else ApplyDeltas poolA 8 (0, 0))" by blast
  then have c: "ApplyDeltas (poolA_removed\<lparr>mapDeltas := Map.empty\<rparr>) 8 (0, 0) = ApplyDeltas poolA 8 (0, 0)"
    by (simp add: txA_def)
  show ?thesis
    by (intro conjI) (rule remove_A conflicts_A staged_A surplus_A expire_A a block_A b c)+
qed

text \<open>
  Claim C8 as the specification states it fails for block connection: the sample pool
  holds \<open>txA\<close> with the deltas \<open>(3, 500)\<close>; after \<open>removeForBlock\<close> of a block that
  contains \<open>txA\<close> the entry is gone and \<open>ApplyDeltas\<close> no longer adds the deltas.
\<close>

theorem C8_block_clears_delta_counterexample:
  "mapTx poolA 7 = Some entryA \<and>
   removeForBlock mu0 poolA [txA] 100 [] True = Some (poolA_removed\<lparr>mapDeltas := Map.empty\<rparr>, [], [entryA]) \<and>
   mapTx (poolA_removed\<lparr>mapDeltas := Map.empty\<rparr>) 7 = None \<and>
   ApplyDeltas poolA 7 (0, 0) = (3, 500) \<and>
   ApplyDeltas (poolA_removed\<lparr>mapDeltas := Map.empty\<rparr>) 7 (0, 0) = (0, 0)"
  by (simp add: block_A) (simp add: poolA_def poolA_removed_def ApplyDeltas_def)

section \<open>Trimming\<close>

lemma spender_in_spenders:
  assumes wf: "spend_map_ok p" and c: "mapTx p c = Some ec" and i: "txin \<in> set (vin (tx ec))"
  shows "c \<in> set (spenders p (fst (prevout txin)))"
proof -
  from wf c i obtain k where k: "mapNextTx p (prevout txin) = Some (tx ec, k)"
    and h: "GetHash (tx ec) = c"
    unfolding spend_map_ok_def by blast
  let ?S = "{j. mapNextTx p (fst (prevout txin), j) \<noteq> None}"
  have "?S \<subseteq> snd ` dom (mapNextTx p)" by force
  with wf have fin: "finite ?S"
    unfolding spend_map_ok_def by (meson finite_imageI finite_subset)
  from k have m: "snd (prevout txin) \<in> ?S" by simp
  have "GetHash (fst (the (mapNextTx p (fst (prevout txin), snd (prevout txin))))) = c"
    using k h by simp
  moreover from m fin have "snd (prevout txin) \<in> set (sorted_list_of_set ?S)"
    by simp
  ultimately show ?thesis
    unfolding spenders_def set_map by (rule image_eqI [OF sym])
qed

lemma trim_walk_good:
  "trim_walk mu p protect stage nFeesReserved nFeesRemoved feeToUse iterextra iterperfail fails
       (todo, now, nowfee, nowsize, nowusage, itertotal) = Some (True, r) \<Longrightarrow>
   walk_closed p stage now (set todo) \<Longrightarrow> now \<inter> protect = {} \<Longrightarrow>
   walk_closed p stage (fst r) {} \<and> fst r \<inter> protect = {}"
proof (induction mu p protect stage nFeesReserved nFeesRemoved feeToUse iterextra iterperfail fails
         "(todo, now, nowfee, nowsize, nowusage, itertotal)"
         arbitrary: todo now nowfee nowsize nowusage itertotal rule: trim_walk.induct)
  case (1 mu p protect stage nFeesReserved nFeesRemoved feeToUse iterextra iterperfail fails todo now nowfee nowsize nowusage itertotal)
  show ?case
  proof (cases todo)
    case Nil
    with "1.prems" show ?thesis
      by (auto simp: trim_walk.simps)
  next
    case (Cons hashnow todo_rest)
    from "1.prems"(1) Cons have np: "hashnow \<notin> protect"
      and nb: "\<not> itertotal + 1 > iterextra + iterperfail * (fails + 1)"
      by (auto simp: trim_walk.simps split: if_split_asm)
    from "1.prems"(1) Cons np nb obtain origTx where o: "mapTx p hashnow = Some origTx"
      by (auto simp: trim_walk.simps split: option.split_asm)
    from "1.prems"(1) Cons np nb o have nf: "\<not> nFeesReserved + nFeesRemoved + (nowfee + nFee origTx) > feeToUse"
      by (auto simp: trim_walk.simps split: if_split_asm)
    let ?todo' = "todo_rest @ filter (\<lambda>nexthash. \<not> (nexthash \<in> stage \<or> nexthash \<in> insert hashnow now))
                                          (spenders p hashnow)"
    from "1.prems"(1) Cons np nb o nf have rec:
      "trim_walk mu p protect stage nFeesReserved nFeesRemoved feeToUse iterextra iterperfail fails
         (?todo', insert hashnow now, nowfee + nFee origTx, nowsize + nTxSize origTx,
          nowusage + GuessDynamicMemoryUsage mu origTx, itertotal + 1) = Some (True, r)"
      by (simp add: trim_walk.simps)
    have cl: "walk_closed p stage (insert hashnow now) (set ?todo')"
      using "1.prems"(2) Cons unfolding walk_closed_def by auto
    have pr: "insert hashnow now \<inter> protect = {}"
      using "1.prems"(3) np by auto
    show ?thesis
      by (rule "1.hyps" [OF Cons np nb o nf rec cl pr])
  qed
qed

lemma stage_no_ancestor_step:
  assumes wf: "spend_map_ok p"
    and K: "stage \<inter> mempool_ancestors p t = {}"
    and cl: "walk_closed p stage N {}"
    and pr: "N \<inter> (\<lambda>txin. fst (prevout txin)) ` set (vin t) = {}"
  shows "(stage \<union> N) \<inter> mempool_ancestors p t = {}"
proof -
  have "h \<notin> N" if "h \<in> mempool_ancestors p t" for h
    using that
  proof (induction rule: mempool_ancestors.induct)
    case (parent txin e)
    with pr show ?case by blast
  next
    case (grandparent c ec txin e)
    show ?case
    proof
      assume hN: "fst (prevout txin) \<in> N"
      have "c \<in> set (spenders p (fst (prevout txin)))"
        by (rule spender_in_spenders [OF wf grandparent(2,3)])
      with cl hN have "c \<in> stage \<union> N" unfolding walk_closed_def by blast
      with K grandparent(1,5) show False by blast
    qed
  qed
  with K show ?thesis by blast
qed

lemma trim_loop_no_ancestor:
  "trim_loop mu p rnd dgt sizeToTrim protect nFeesReserved sizeToUse feeToUse iterextra k byScore st = Some st' \<Longrightarrow>
   spend_map_ok p \<Longrightarrow> protect = (\<lambda>txin. fst (prevout txin)) ` set (vin t) \<Longrightarrow>
   tsStage st \<inter> mempool_ancestors p t = {} \<Longrightarrow>
   tsStage st' \<inter> mempool_ancestors p t = {}"
proof (induction byScore arbitrary: k st)
  case Nil
  then show ?case by simp
next
  case (Cons i rest)
  note IH = Cons.IH [OF _ Cons.prems(2,3)]
  show ?case
  proof (cases "tsUsageRemoved st < sizeToTrim \<and> rnd k mod 10 = 0")
    case False
    with Cons.prems(1,4) IH show ?thesis
      by (auto split: if_split_asm)
  next
    case True
    with Cons.prems(1) obtain it where it: "mapTx p i = Some it"
      by (auto split: option.split_asm)
    show ?thesis
    proof (cases "GetHash (tx it) \<in> tsStage st \<or> dgt (nFee it) sizeToUse feeToUse (nTxSize it)")
      case True
      with Cons.prems(1,4) IH it \<open>tsUsageRemoved st < sizeToTrim \<and> rnd k mod 10 = 0\<close> show ?thesis
        by (auto split: if_split_asm)
    next
      case False
      with Cons.prems(1) it \<open>tsUsageRemoved st < sizeToTrim \<and> rnd k mod 10 = 0\<close>
      obtain good now nowfee nowsize nowusage itertotal where
        w: "trim_walk mu p protect (tsStage st) nFeesReserved (tsFeesRemoved st) feeToUse
                             iterextra 10 (tsFails st)
                             ([GetHash (tx it)], {}, 0, 0, 0, tsIterTotal st)
            = Some (good, now, nowfee, nowsize, nowusage, itertotal)"
        by (auto split: option.split_asm)
      show ?thesis
      proof (cases "good \<and> \<not> dgt nowfee sizeToUse feeToUse nowsize")
        case True
        with w have w': "trim_walk mu p protect (tsStage st) nFeesReserved (tsFeesRemoved st) feeToUse
                             iterextra 10 (tsFails st)
                             ([GetHash (tx it)], {}, 0, 0, 0, tsIterTotal st)
            = Some (True, now, nowfee, nowsize, nowusage, itertotal)" by simp
        have "walk_closed p (tsStage st) {} (set [GetHash (tx it)])"
          by (simp add: walk_closed_def)
        from trim_walk_good [OF w' this] have cl: "walk_closed p (tsStage st) now {}"
          and pr: "now \<inter> protect = {}" by simp_all
        from pr Cons.prems(3) have pr': "now \<inter> (\<lambda>txin. fst (prevout txin)) ` set (vin t) = {}" by simp
        have K': "(tsStage st \<union> now) \<inter> mempool_ancestors p t = {}"
          by (rule stage_no_ancestor_step [OF Cons.prems(2) Cons.prems(4) cl pr'])
        from Cons.prems(1) it \<open>tsUsageRemoved st < sizeToTrim \<and> rnd k mod 10 = 0\<close> False w True
        have "trim_loop mu p rnd dgt sizeToTrim protect nFeesReserved sizeToUse feeToUse
                                 iterextra (k + 1) rest
                                 (st\<lparr>tsStage := tsStage st \<union> now,
                                     tsFeesRemoved := tsFeesRemoved st + nowfee,
                                     tsUsageRemoved := tsUsageRemoved st + nowusage,
                                     tsIterTotal := itertotal\<rparr>) = Some st'"
          by simp
        from IH [OF this] K' show ?thesis by simp
      next
        case nogood: False
        from Cons.prems(1) it \<open>tsUsageRemoved st < sizeToTrim \<and> rnd k mod 10 = 0\<close> False w nogood
        have "(tsFails st + 1 > 10 \<and> st' = st\<lparr>tsFails := tsFails st + 1, tsIterTotal := itertotal\<rparr>) \<or>
              trim_loop mu p rnd dgt sizeToTrim protect nFeesReserved sizeToUse feeToUse
                                 iterextra (k + 1) rest
                                 (st\<lparr>tsFails := tsFails st + 1, tsIterTotal := itertotal\<rparr>) = Some st'"
          by (auto split: if_split_asm)
        then show ?thesis
        proof
          assume "tsFails st + 1 > 10 \<and> st' = st\<lparr>tsFails := tsFails st + 1, tsIterTotal := itertotal\<rparr>"
          with Cons.prems(4) show ?thesis by simp
        next
          assume "trim_loop mu p rnd dgt sizeToTrim protect nFeesReserved sizeToUse feeToUse
                                 iterextra (k + 1) rest
                                 (st\<lparr>tsFails := tsFails st + 1, tsIterTotal := itertotal\<rparr>) = Some st'"
          from IH [OF this] Cons.prems(4) show ?thesis by simp
        qed
      qed
    qed
  qed
qed

lemma spenders_in_pool:
  assumes "spend_map_ok p" "h \<in> set (spenders p hashnow)"
  shows "mapTx p h \<noteq> None"
proof -
  let ?S = "{i. mapNextTx p (hashnow, i) \<noteq> None}"
  have sub: "set (sorted_list_of_set ?S) \<subseteq> ?S"
    by (cases "finite ?S") auto
  from assms(2) obtain i where i: "i \<in> set (sorted_list_of_set ?S)"
    and h: "h = GetHash (fst (the (mapNextTx p (hashnow, i))))"
    unfolding spenders_def by auto
  from i sub obtain ip where ip: "mapNextTx p (hashnow, i) = Some ip" by auto
  from assms(1) have "\<forall>op ip. mapNextTx p op = Some ip \<longrightarrow> mapTx p (GetHash (fst ip)) \<noteq> None"
    unfolding spend_map_ok_def by blast
  with ip have "mapTx p (GetHash (fst ip)) \<noteq> None" by blast
  with h ip show ?thesis by simp
qed

lemma trim_walk_total:
  "spend_map_ok p \<Longrightarrow> \<forall>h \<in> set todo. mapTx p h \<noteq> None \<Longrightarrow>
   \<exists>r. trim_walk mu p protect stage nFeesReserved nFeesRemoved feeToUse iterextra iterperfail fails
       (todo, now, nowfee, nowsize, nowusage, itertotal) = Some r"
proof (induction mu p protect stage nFeesReserved nFeesRemoved feeToUse iterextra iterperfail fails
         "(todo, now, nowfee, nowsize, nowusage, itertotal)"
         arbitrary: todo now nowfee nowsize nowusage itertotal rule: trim_walk.induct)
  case (1 mu p protect stage nFeesReserved nFeesRemoved feeToUse iterextra iterperfail fails todo now nowfee nowsize nowusage itertotal)
  show ?case
  proof (cases todo)
    case Nil
    then show ?thesis by (auto simp: trim_walk.simps)
  next
    case (Cons hashnow todo_rest)
    with "1.prems"(2) obtain origTx where o: "mapTx p hashnow = Some origTx" by auto
    show ?thesis
    proof (cases "hashnow \<in> protect \<or> itertotal + 1 > iterextra + iterperfail * (fails + 1)
                  \<or> nFeesReserved + nFeesRemoved + (nowfee + nFee origTx) > feeToUse")
      case True
      with Cons o show ?thesis by (subst trim_walk.simps) auto
    next
      case False
      let ?todo' = "todo_rest @ filter (\<lambda>nexthash. \<not> (nexthash \<in> stage \<or> nexthash \<in> insert hashnow now))
                                          (spenders p hashnow)"
      have t: "\<forall>h \<in> set ?todo'. mapTx p h \<noteq> None"
        using "1.prems" Cons spenders_in_pool [OF "1.prems"(1)] by auto
      from False have np: "hashnow \<notin> protect"
        and nb: "\<not> itertotal + 1 > iterextra + iterperfail * (fails + 1)"
        and nf: "\<not> nFeesReserved + nFeesRemoved + (nowfee + nFee origTx) > feeToUse" by auto
      from "1.hyps" [OF Cons np nb o nf "1.prems"(1) t]
      obtain r where "trim_walk mu p protect stage nFeesReserved nFeesRemoved feeToUse iterextra iterperfail fails
         (?todo', insert hashnow now, nowfee + nFee origTx, nowsize + nTxSize origTx,
          nowusage + GuessDynamicMemoryUsage mu origTx, itertotal + 1) = Some r" by blast
      with Cons np nb o nf show ?thesis by (subst trim_walk.simps) (cases r, simp)
    qed
  qed
qed

lemma trim_loop_total:
  "spend_map_ok p \<Longrightarrow> set byScore \<subseteq> dom (mapTx p) \<Longrightarrow>
   \<exists>st'. trim_loop mu p rnd dgt sizeToTrim protect nFeesReserved sizeToUse feeToUse iterextra k byScore st = Some st'"
proof (induction byScore arbitrary: k st)
  case Nil
  then show ?case by simp
next
  case (Cons i rest)
  from Cons.prems(2) obtain it where it: "mapTx p i = Some it" by auto
  with Cons.prems(1) have key: "GetHash (tx it) = i" unfolding spend_map_ok_def by blast
  from Cons.prems(2) have sub: "set rest \<subseteq> dom (mapTx p)" by simp
  note IH = Cons.IH [OF Cons.prems(1) sub]
  have "\<forall>h \<in> set [GetHash (tx it)]. mapTx p h \<noteq> None" using it key by simp
  from trim_walk_total [OF Cons.prems(1) this]
  obtain r where w: "trim_walk mu p protect (tsStage st) nFeesReserved (tsFeesRemoved st) feeToUse
                             iterextra 10 (tsFails st)
                             ([GetHash (tx it)], {}, 0, 0, 0, tsIterTotal st) = Some r" by blast
  obtain good now nowfee nowsize nowusage itertotal where
    r: "r = (good, now, nowfee, nowsize, nowusage, itertotal)" by (cases r) auto
  from IH [of "k + 1" st]
       IH [of "k + 1" "st\<lparr>tsStage := tsStage st \<union> now,
                                     tsFeesRemoved := tsFeesRemoved st + nowfee,
                                     tsUsageRemoved := tsUsageRemoved st + nowusage,
                                     tsIterTotal := itertotal\<rparr>"]
       IH [of "k + 1" "st\<lparr>tsFails := tsFails st + 1, tsIterTotal := itertotal\<rparr>"]
  show ?case
    by (simp add: it w r)
qed

lemma trim_loop_break_at:
  "trim_loop mu p rnd dgt sizeToTrim protect nFeesReserved sizeToUse feeToUse iterextra k pre st = Some st1 \<Longrightarrow>
   rnd (k + length pre) mod 10 = 0 \<Longrightarrow>
   mapTx p c = Some it \<Longrightarrow>
   GetHash (tx it) \<notin> tsStage st1 \<Longrightarrow>
   dgt (nFee it) sizeToUse feeToUse (nTxSize it) \<Longrightarrow>
   trim_loop mu p rnd dgt sizeToTrim protect nFeesReserved sizeToUse feeToUse iterextra k (pre @ c # rest) st = Some st1"
proof (induction pre arbitrary: k st)
  case Nil
  then show ?case by simp
next
  case (Cons a pre)
  from Cons.prems(2) have r: "rnd (Suc k + length pre) mod 10 = 0" by simp
  note IH = Cons.IH [OF _ r Cons.prems(3,4,5)]
  from Cons.prems(1) show ?case
    by (auto simp: IH split: if_split_asm option.split_asm prod.split_asm)
qed

subsection \<open>Trimming on the sample pool\<close>

lemma spend_map_ok_AX: "spend_map_ok poolAX"
  by (auto simp: spend_map_ok_def poolAX_def entryA_def entryX_def mkEntry_def txA_def txX_def
           split: if_split_asm)

lemma spenders_AX: "spenders poolAX 7 = []" "spenders poolAX 5 = []"
  by (simp_all add: spenders_def poolAX_def)

lemma mapTx_AX: "mapTx poolAX 7 = Some entryA" "mapTx poolAX 5 = Some entryX"
  by (simp_all add: poolAX_def)

lemma walk_AX_7: "trim_walk mu0 poolAX {} {} 0 0 1500 10 10 0 ([7], {}, 0, 0, 0, 0) = Some (True, {7}, 1000, 250, 812, 1)"
  apply (subst trim_walk.simps)
  apply (simp add: mapTx_AX spenders_AX)
  apply (subst trim_walk.simps)
  apply (simp add: entryA_def mkEntry_def GuessDynamicMemoryUsage_def mu0_def txA_def)
  done

lemma trim_AX_7: "TrimMempool mu0 poolAX [7] (\<lambda>k. 0) exact_gt 2000 {} 0 250 1500 True 10 {} 0 = Some (False, {7}, 1000)"
  apply (simp add: TrimMempool_def mapTx_AX)
  apply (simp add: entryA_def [THEN arg_cong [where f = tx]] mkEntry_def txA_def [THEN arg_cong [where f = GetHash]])
  apply (simp add: walk_AX_7)
  apply (simp add: entryA_def mkEntry_def exact_gt_def)
  done

lemma walk_AX_protected: "trim_walk mu0 poolAX {7} {} 0 0 10000 10 10 0 ([7], {}, 0, 0, 0, 0) = Some (False, {}, 0, 0, 0, 0)"
  by (subst trim_walk.simps) simp

lemma walk_AX_5: "trim_walk mu0 poolAX {7} {} 0 0 10000 10 10 1 ([5], {}, 0, 0, 0, 0) = Some (True, {5}, 2000, 250, 812, 1)"
  apply (subst trim_walk.simps)
  apply (simp add: mapTx_AX spenders_AX)
  apply (subst trim_walk.simps)
  apply (simp add: entryX_def mkEntry_def GuessDynamicMemoryUsage_def mu0_def txX_def)
  done

lemma entry_fields:
  "GetHash (tx entryA) = 7" "nFee entryA = 1000" "nTxSize entryA = 250"
  "GetHash (tx entryX) = 5" "nFee entryX = 2000" "nTxSize entryX = 250"
  by (simp_all add: entryA_def entryX_def mkEntry_def txA_def txX_def)

lemma usage_AX: "DynamicMemoryUsage mu0 poolAX = 1496" "GuessDynamicMemoryUsage mu0 entryB = 812"
  by (simp_all add: DynamicMemoryUsage_def GuessDynamicMemoryUsage_def poolAX_def mu0_def entryB_def
        mkEntry_def txB_def)

lemma stage_AX: "StageTrimToSize mu0 poolAX [7, 5] (\<lambda>k. 0) exact_gt 0 entryB 0 {} 0 = Some (True, {5}, 2000)"
  apply (simp add: StageTrimToSize_def Let_def usage_AX)
  apply (simp add: entryB_def mkEntry_def txB_def)
  apply (simp add: TrimMempool_def mapTx_AX entry_fields exact_gt_def walk_AX_protected walk_AX_5)
  done

lemma staged_AX: "RemoveStaged mu0 poolAX {5} = Some poolAX_trimmed"
  apply (simp add: RemoveStaged_def UpdateForRemoveFromMempool_def mapTx_AX)
  apply (simp add: CalculateMemPoolAncestors_def entryX_def mkEntry_def txX_def
       poolAX_def [THEN arg_cong [where f = mapTx]] ancestors_loop.simps)
  apply (simp add: UpdateAncestorsOf_def UpdateChildrenForRemoval_def GetMemPoolParents_def GetMemPoolChildren_def
      removeUnchecked_def poolAX_def poolAX_trimmed_def entryX_def mkEntry_def txX_def links_at_def DynamicUsage_set_def)
  done

lemma anc_AX: "7 \<in> mempool_ancestors poolAX (tx entryB)"
  using mempool_ancestors.parent [of "\<lparr>prevout = (7, 0)\<rparr>" "tx entryB" poolAX entryA]
  by (simp add: entryB_def mkEntry_def txB_def mapTx_AX)

subsection \<open>The ancestors of the incoming transaction are not staged\<close>

lemma mempool_ancestors_in_pool: "h \<in> mempool_ancestors p t \<Longrightarrow> h \<in> dom (mapTx p)"
  by (induction rule: mempool_ancestors.induct) auto

text \<open>
  Claim C1. Let the spend map be consistent with the entries, let the candidates be
  entries of the pool, and let the set \<open>stage\<close> that the caller hands in hold no
  in-mempool ancestor of \<open>toadd\<close> (the empty set, for one). Then \<open>StageTrimToSize\<close> returns,
  the stage it returns holds no in-mempool ancestor of \<open>toadd\<close>, whatever the fees, the
  order of the candidates and the random draws are, and every such ancestor is still
  in the pool after \<open>RemoveStaged\<close> of that stage.
\<close>

theorem C1_trim_spares_ancestors:
  assumes ok: "spend_map_ok p"
    and cands: "set byScore \<subseteq> dom (mapTx p)"
    and st: "stage \<inter> mempool_ancestors p (tx toadd) = {}"
  shows "\<exists>ok stage' nFeesRemoved'.
           StageTrimToSize mu p byScore rnd dgt sizelimit toadd nFeesReserved stage nFeesRemoved
             = Some (ok, stage', nFeesRemoved') \<and>
           stage' \<inter> mempool_ancestors p (tx toadd) = {} \<and>
           (\<forall>p'. RemoveStaged mu p stage' = Some p'
                 \<longrightarrow> mempool_ancestors p (tx toadd) \<subseteq> dom (mapTx p'))"
proof -
  let ?protect = "(\<lambda>txin. fst (prevout txin)) ` set (vin (tx toadd))"
  let ?inc = "GuessDynamicMemoryUsage mu toadd"
  let ?exp = "DynamicMemoryUsage mu p + ?inc"
  let ?st0 = "\<lparr>tsStage = stage, tsFeesRemoved = nFeesRemoved, tsUsageRemoved = 0,
               tsFails = 0, tsIterTotal = 0\<rparr>"
  have surv: "mempool_ancestors p (tx toadd) \<subseteq> dom (mapTx p')"
    if "S \<inter> mempool_ancestors p (tx toadd) = {}" and "RemoveStaged mu p S = Some p'" for S p'
    using RemoveStaged_frame [OF that(2)] that(1) mempool_ancestors_in_pool [of _ p "tx toadd"]
    by blast
  show ?thesis
  proof (cases "?exp \<le> sizelimit")
    case True
    then have "StageTrimToSize mu p byScore rnd dgt sizelimit toadd nFeesReserved stage nFeesRemoved
                 = Some (True, stage, nFeesRemoved)"
      by (simp add: StageTrimToSize_def Let_def)
    with st surv show ?thesis by blast
  next
    case False
    from trim_loop_total [OF ok cands]
    obtain st' where L: "trim_loop mu p rnd dgt (min (?exp - sizelimit) ?inc) ?protect nFeesReserved
                            (nTxSize toadd) (nFee toadd) 10 0 byScore ?st0 = Some st'"
      by blast
    have K: "tsStage st' \<inter> mempool_ancestors p (tx toadd) = {}"
      by (rule trim_loop_no_ancestor [OF L ok refl]) (simp add: st)
    from False L have "StageTrimToSize mu p byScore rnd dgt sizelimit toadd nFeesReserved stage nFeesRemoved
        = Some (if True \<and> tsUsageRemoved st' < min (?exp - sizelimit) ?inc then False
                else if tsStage st' = {} \<and> min (?exp - sizelimit) ?inc > 0 then False
                else True, tsStage st', tsFeesRemoved st')"
      by (simp add: StageTrimToSize_def Let_def TrimMempool_def)
    with K surv show ?thesis by blast
  qed
qed

theorem C1_trim_spares_ancestors_witness:
  "spend_map_ok poolAX \<and> set [7, 5] \<subseteq> dom (mapTx poolAX) \<and>
   {} \<inter> mempool_ancestors poolAX (tx entryB) = {} \<and>
   7 \<in> mempool_ancestors poolAX (tx entryB) \<and>
   StageTrimToSize mu0 poolAX [7, 5] (\<lambda>k. 0) exact_gt 0 entryB 0 {} 0 = Some (True, {5}, 2000) \<and>
   {5} \<inter> mempool_ancestors poolAX (tx entryB) = {} \<and>
   RemoveStaged mu0 poolAX {5} = Some poolAX_trimmed \<and>
   mempool_ancestors poolAX (tx entryB) \<subseteq> dom (mapTx poolAX_trimmed)"
proof -
  have c: "set [7, 5] \<subseteq> dom (mapTx poolAX)" by (simp add: poolAX_def)
  have e: "{} \<inter> mempool_ancestors poolAX (tx entryB) = {}" by simp
  from C1_trim_spares_ancestors [OF spend_map_ok_AX c e, of mu0 "\<lambda>k. 0" exact_gt 0 0 0]
  obtain ok stage' nFeesRemoved' where
    r: "StageTrimToSize mu0 poolAX [7, 5] (\<lambda>k. 0) exact_gt 0 entryB 0 {} 0 = Some (ok, stage', nFeesRemoved')"
    and k: "stage' \<inter> mempool_ancestors poolAX (tx entryB) = {}"
    and s: "\<forall>p'. RemoveStaged mu0 poolAX stage' = Some p'
                 \<longrightarrow> mempool_ancestors poolAX (tx entryB) \<subseteq> dom (mapTx p')"
    by blast
  from r stage_AX have eq: "stage' = {5}" by simp
  from k eq have k': "{5} \<inter> mempool_ancestors poolAX (tx entryB) = {}" by simp
  from s eq staged_AX have s': "mempool_ancestors poolAX (tx entryB) \<subseteq> dom (mapTx poolAX_trimmed)" by simp
  show ?thesis
    by (intro conjI) (rule spend_map_ok_AX c e anc_AX stage_AX k' staged_AX s')+
qed

subsection \<open>The scan stops at the first candidate that pays a higher rate\<close>

text \<open>
  Claim C7. Let \<open>TrimMempool\<close> over the candidates \<open>pre\<close> return a stage, and let \<open>c\<close> be
  the next candidate: it is sampled (the draw is a multiple of 10), it is not in that
  stage, and the comparison of its own fee rate with \<open>feeToUse / sizeToUse\<close> at lines
  840-844 holds. Then \<open>TrimMempool\<close> over \<open>pre\<close>, \<open>c\<close> and any further candidates \<open>rest\<close>
  returns the same flag, stage and fees: the scan ends at \<open>c\<close>, and neither \<open>c\<close> nor
  a candidate after it is staged.
\<close>

theorem C7_trim_break:
  assumes T: "TrimMempool mu p pre rnd dgt sizeToTrim protect nFeesReserved sizeToUse feeToUse
                 mustTrimAllSize iterextra stage nFeesRemoved = Some (ok, stage', nFeesRemoved')"
    and r: "rnd (length pre) mod 10 = 0"
    and c: "mapTx p c = Some it"
    and ns: "GetHash (tx it) \<notin> stage'"
    and worse: "dgt (nFee it) sizeToUse feeToUse (nTxSize it)"
  shows "TrimMempool mu p (pre @ c # rest) rnd dgt sizeToTrim protect nFeesReserved sizeToUse feeToUse
           mustTrimAllSize iterextra stage nFeesRemoved = Some (ok, stage', nFeesRemoved')"
proof -
  let ?st0 = "\<lparr>tsStage = stage, tsFeesRemoved = nFeesRemoved, tsUsageRemoved = 0,
               tsFails = 0, tsIterTotal = 0\<rparr>"
  from T obtain st where
    L: "trim_loop mu p rnd dgt sizeToTrim protect nFeesReserved sizeToUse feeToUse iterextra 0 pre ?st0 = Some st"
    and R: "(ok, stage', nFeesRemoved') =
          (if mustTrimAllSize \<and> tsUsageRemoved st < sizeToTrim then False
             else if tsStage st = {} \<and> sizeToTrim > 0 then False
             else True,
             tsStage st, tsFeesRemoved st)"
    unfolding TrimMempool_def by (cases "trim_loop mu p rnd dgt sizeToTrim protect nFeesReserved sizeToUse feeToUse iterextra 0 pre ?st0") auto
  from R have s: "stage' = tsStage st" by simp
  from r have r0: "rnd (0 + length pre) mod 10 = 0" by simp
  from ns s have ns': "GetHash (tx it) \<notin> tsStage st" by simp
  have "trim_loop mu p rnd dgt sizeToTrim protect nFeesReserved sizeToUse feeToUse iterextra 0
           (pre @ c # rest) ?st0 = Some st"
    by (rule trim_loop_break_at [OF L r0 c ns' worse])
  with R show ?thesis unfolding TrimMempool_def by simp
qed

theorem C7_trim_break_witness:
  "TrimMempool mu0 poolAX [7] (\<lambda>k. 0) exact_gt 2000 {} 0 250 1500 True 10 {} 0 = Some (False, {7}, 1000) \<and>
   (\<lambda>k. 0 :: nat) (length [7 :: nat]) mod 10 = 0 \<and>
   mapTx poolAX 5 = Some entryX \<and>
   GetHash (tx entryX) \<notin> {7} \<and>
   exact_gt (nFee entryX) 250 1500 (nTxSize entryX) \<and>
   TrimMempool mu0 poolAX ([7] @ 5 # [9]) (\<lambda>k. 0) exact_gt 2000 {} 0 250 1500 True 10 {} 0
     = Some (False, {7}, 1000)"
proof -
  have r: "(\<lambda>k. 0 :: nat) (length [7 :: nat]) mod 10 = 0" by simp
  have n: "GetHash (tx entryX) \<notin> {7}" by (simp add: entry_fields)
  have w: "exact_gt (nFee entryX) 250 1500 (nTxSize entryX)" by (simp add: entry_fields exact_gt_def)
  show ?thesis
    by (intro conjI)
       (rule trim_AX_7 r mapTx_AX n w C7_trim_break [OF trim_AX_7 r mapTx_AX(2) n w])+
qed

section \<open>Ancestor limits\<close>

text \<open>
  \<open>CalculateMemPoolAncestors\<close> compares 64-bit sums with the limits. The lemmas below
  read such a comparison on natural numbers when the sum does not wrap.
\<close>

lemma word64_add_gt:
  fixes x y l :: uint64
  assumes "unat x + unat y < 2 ^ 64"
  shows "(l < x + y) = (unat l < unat x + unat y)"
proof -
  from assms have "unat (x + y) = unat x + unat y"
    by (simp add: unat_add_lem [THEN iffD1])
  then show ?thesis by (simp add: word_less_nat_alt)
qed

lemma word64_add1_gt:
  fixes x l :: uint64
  assumes "unat x + 1 < 2 ^ 64"
  shows "(l < x + 1) = (unat l < unat x + 1)"
proof -
  from assms have "unat x + unat (1 :: uint64) < 2 ^ 64" by simp
  from word64_add_gt [OF this, of l] show ?thesis by simp
qed

lemma word64_card_gt:
  fixes l :: uint64
  assumes "n + 1 < 2 ^ 64"
  shows "(l < of_nat n + 1) = (unat l < n + 1)"
proof -
  from assms have n: "unat (of_nat n :: uint64) = n"
    by (simp add: unat_of_nat)
  from n assms have "unat (of_nat n :: uint64) + 1 < 2 ^ 64" by simp
  from word64_add1_gt [OF this, of l] n show ?thesis by simp
qed

lemma word64_card2_gt:
  fixes l :: uint64
  assumes "n + m + 1 < 2 ^ 64"
  shows "(l < of_nat n + of_nat m + 1) = (unat l < n + m + 1)"
proof -
  have e: "(of_nat n + of_nat m :: uint64) = of_nat (n + m)" by (simp only: of_nat_add)
  from word64_card_gt [OF assms, of l] show ?thesis unfolding e .
qed

subsection \<open>What the limits are compared with\<close>

lemma finite_pool_inputs: "finite (pool_inputs p ins)"
  by (simp add: pool_inputs_def)

lemma pool_inputs_Nil: "pool_inputs p [] = {}"
  by (simp add: pool_inputs_def)

lemma pool_inputs_Cons:
  "pool_inputs p (txin # rest) =
     (if mapTx p (fst (prevout txin)) = None then pool_inputs p rest
      else insert (fst (prevout txin)) (pool_inputs p rest))"
  by (auto simp: pool_inputs_def)

lemma scan_vin_spec:
  assumes "finite ph" and "card (ph \<union> pool_inputs p ins) + 1 < 2 ^ 64"
  shows "case scan_vin p lac ins ph of
           Inl err \<Rightarrow> pool_inputs p ins \<noteq> {} \<and> unat lac < card (ph \<union> pool_inputs p ins) + 1
         | Inr ph' \<Rightarrow> ph' = ph \<union> pool_inputs p ins \<and>
                      (pool_inputs p ins \<noteq> {} \<longrightarrow> card ph' + 1 \<le> unat lac)"
  using assms
proof (induction ins arbitrary: ph)
  case Nil
  then show ?case by (simp add: pool_inputs_Nil)
next
  case (Cons txin rest)
  let ?h = "fst (prevout txin)"
  show ?case
  proof (cases "mapTx p ?h")
    case None
    then have e: "pool_inputs p (txin # rest) = pool_inputs p rest"
      by (simp add: pool_inputs_Cons)
    from Cons.IH [OF Cons.prems(1)] Cons.prems(2) None show ?thesis
      unfolding e by simp
  next
    case (Some piter)
    let ?ph = "insert ?h ph"
    have step: "scan_vin p lac (txin # rest) ph =
                  (if lac < of_nat (card ?ph) + 1 then Inl TooManyUnconfirmedParents
                   else scan_vin p lac rest ?ph)"
      using Some by (simp add: Let_def)
    have U: "?ph \<union> pool_inputs p rest = ph \<union> pool_inputs p (txin # rest)"
      using Some by (simp add: pool_inputs_Cons)
    have fin: "finite (ph \<union> pool_inputs p (txin # rest))"
      using Cons.prems(1) by (simp add: finite_pool_inputs)
    have "?ph \<subseteq> ph \<union> pool_inputs p (txin # rest)"
      using Some by (auto simp: pool_inputs_Cons)
    from card_mono [OF fin this] have le: "card ?ph \<le> card (ph \<union> pool_inputs p (txin # rest))" .
    with Cons.prems(2) have b: "card ?ph + 1 < 2 ^ 64" by simp
    note chk = word64_card_gt [OF b, of lac]
    have ne: "pool_inputs p (txin # rest) \<noteq> {}" using Some by (simp add: pool_inputs_Cons)
    show ?thesis
    proof (cases "lac < of_nat (card ?ph) + 1")
      case True
      with chk le have "unat lac < card (ph \<union> pool_inputs p (txin # rest)) + 1" by simp
      with True ne show ?thesis by (subst step) simp
    next
      case False
      with chk have pass: "card ?ph + 1 \<le> unat lac" by simp
      have f': "finite ?ph" using Cons.prems(1) by simp
      have b': "card (?ph \<union> pool_inputs p rest) + 1 < 2 ^ 64"
        using Cons.prems(2) U by simp
      note IH = Cons.IH [OF f' b']
      show ?thesis
      proof (cases "scan_vin p lac rest ?ph")
        case (Inl err)
        with IH have "unat lac < card (?ph \<union> pool_inputs p rest) + 1" by simp
        with U have "unat lac < card (ph \<union> pool_inputs p (txin # rest)) + 1" by simp
        with Inl False ne show ?thesis by (subst step) simp
      next
        case (Inr ph')
        with IH have e: "ph' = ?ph \<union> pool_inputs p rest"
          and c: "pool_inputs p rest \<noteq> {} \<longrightarrow> card ph' + 1 \<le> unat lac" by auto
        have "card ph' + 1 \<le> unat lac"
        proof (cases "pool_inputs p rest = {}")
          case True
          with e pass show ?thesis by simp
        next
          case False
          with c show ?thesis by simp
        qed
        with Inr False e U show ?thesis by (subst step) simp
      qed
    qed
  qed
qed

lemma stage_parents_spec:
  assumes "finite sps" and "finite S" and "sps \<inter> S = {}"
    and "card (sps \<union> (set ys - S)) + card S + 1 < 2 ^ 64"
  shows "case stage_parents S lac ys sps of
           Inl err \<Rightarrow> ys \<noteq> [] \<and> unat lac < card (sps \<union> (set ys - S)) + card S + 1
         | Inr sps' \<Rightarrow> sps' = sps \<union> (set ys - S) \<and>
                       (ys \<noteq> [] \<longrightarrow> card sps' + card S + 1 \<le> unat lac)"
  using assms
proof (induction ys arbitrary: sps)
  case Nil
  then show ?case by simp
next
  case (Cons phash rest)
  define sps1 where "sps1 = (if phash \<notin> S then insert phash sps else sps)"
  have step: "stage_parents S lac (phash # rest) sps =
                (if lac < of_nat (card sps1) + of_nat (card S) + 1 then Inl TooManyUnconfirmedAncestors
                 else stage_parents S lac rest sps1)"
    by (simp add: sps1_def Let_def)
  have U: "sps1 \<union> (set rest - S) = sps \<union> (set (phash # rest) - S)" by (auto simp: sps1_def)
  have fin: "finite (sps \<union> (set (phash # rest) - S))" using Cons.prems(1) by simp
  have "sps1 \<subseteq> sps \<union> (set (phash # rest) - S)" by (auto simp: sps1_def)
  from card_mono [OF fin this] have le: "card sps1 \<le> card (sps \<union> (set (phash # rest) - S))" .
  with Cons.prems(4) have b: "card sps1 + card S + 1 < 2 ^ 64" by simp
  note chk = word64_card2_gt [OF b, of lac]
  show ?case
  proof (cases "lac < of_nat (card sps1) + of_nat (card S) + 1")
    case True
    with chk le have "unat lac < card (sps \<union> (set (phash # rest) - S)) + card S + 1" by simp
    with True show ?thesis by (subst step) simp
  next
    case False
    with chk have pass: "card sps1 + card S + 1 \<le> unat lac" by simp
    have f': "finite sps1" using Cons.prems(1) by (simp add: sps1_def)
    have d': "sps1 \<inter> S = {}" using Cons.prems(3) by (auto simp: sps1_def)
    have b': "card (sps1 \<union> (set rest - S)) + card S + 1 < 2 ^ 64"
      using Cons.prems(4) U by simp
    note IH = Cons.IH [OF f' Cons.prems(2) d' b']
    show ?thesis
    proof (cases "stage_parents S lac rest sps1")
      case (Inl err)
      with IH have "unat lac < card (sps1 \<union> (set rest - S)) + card S + 1" by simp
      with U have "unat lac < card (sps \<union> (set (phash # rest) - S)) + card S + 1" by simp
      with Inl False show ?thesis by (subst step) simp
    next
      case (Inr sps')
      with IH have e: "sps' = sps1 \<union> (set rest - S)"
        and c: "rest \<noteq> [] \<longrightarrow> card sps' + card S + 1 \<le> unat lac" by auto
      have "card sps' + card S + 1 \<le> unat lac"
      proof (cases "rest = []")
        case True
        with e pass show ?thesis by simp
      next
        case False
        with c show ?thesis by simp
      qed
      with Inr False e U show ?thesis by (subst step) simp
    qed
  qed
qed

subsection \<open>One stage of the search\<close>

lemma anc_direct: "pool_inputs p (vin t) \<subseteq> mempool_ancestors p t"
  by (auto simp: pool_inputs_def intro: mempool_ancestors.parent)

lemma anc_step:
  assumes "a \<in> mempool_ancestors p t" and "mapTx p a = Some ea"
  shows "pool_inputs p (vin (tx ea)) \<subseteq> mempool_ancestors p t"
  using assms by (auto simp: pool_inputs_def intro: mempool_ancestors.grandparent)

lemma anc_least:
  assumes d: "pool_inputs p (vin t) \<subseteq> S"
    and c: "\<And>x ex. x \<in> S \<Longrightarrow> mapTx p x = Some ex \<Longrightarrow> pool_inputs p (vin (tx ex)) \<subseteq> S"
  shows "mempool_ancestors p t \<subseteq> S"
proof
  fix h assume "h \<in> mempool_ancestors p t"
  then show "h \<in> S"
  proof (induction rule: mempool_ancestors.induct)
    case (parent txin e)
    then have "fst (prevout txin) \<in> pool_inputs p (vin t)" by (auto simp: pool_inputs_def)
    with d show ?case by blast
  next
    case (grandparent c' ec txin e)
    then have "fst (prevout txin) \<in> pool_inputs p (vin (tx ec))" by (auto simp: pool_inputs_def)
    with c [OF grandparent(5) grandparent(2)] show ?case by blast
  qed
qed

lemma anc_finite: "finite (dom (mapTx p)) \<Longrightarrow> finite (mempool_ancestors p t)"
  by (rule finite_subset [of _ "dom (mapTx p)"]) (auto dest: mempool_ancestors_in_pool)

lemma parents_of_set_insert:
  "mapTx p x = Some ex \<Longrightarrow> parents_of_set p (insert x V) = pool_inputs p (vin (tx ex)) \<union> parents_of_set p V"
  by (simp add: parents_of_set_def)

lemma parents_of_set_empty: "parents_of_set p {} = {}"
  by (simp add: parents_of_set_def)

lemma parents_of_set_member:
  "x \<in> V \<Longrightarrow> mapTx p x = Some ex \<Longrightarrow> pool_inputs p (vin (tx ex)) \<subseteq> parents_of_set p V"
  unfolding parents_of_set_def by force

lemma parents_of_set_mono: "V \<subseteq> W \<Longrightarrow> parents_of_set p V \<subseteq> parents_of_set p W"
  unfolding parents_of_set_def by blast

lemma GetMemPoolParents_consistent:
  "links_consistent p \<Longrightarrow> mapTx p x = Some ex \<Longrightarrow>
     GetMemPoolParents p x = Some (pool_inputs p (vin (tx ex)))"
  unfolding links_consistent_def GetMemPoolParents_def by fastforce

lemma visit_stage_spec:
  fixes e :: CTxMemPoolEntry
  assumes lc: "links_consistent p" and fit: "ancestor_sums_fit p e A" and finA: "finite A"
    and SA: "S \<subseteq> A"
    and closedA: "parents_of_set p A \<subseteq> A"
    and inpool: "A \<subseteq> dom (mapTx p)"
  shows "set xs \<subseteq> A \<Longrightarrow> sps \<subseteq> A \<Longrightarrow> sps \<inter> S = {} \<Longrightarrow>
     unat tot + sum_list (map (size_in_pool p) xs) \<le> unat (nTxSize e) + sum (size_in_pool p) A \<Longrightarrow>
     \<exists>res. visit_stage p e S lac las ldc lds xs (tot, sps) = Some res \<and>
       (case res of
          Inl err \<Rightarrow> ancestor_limit_exceeded p e A lac las ldc lds \<and> xs \<noteq> []
        | Inr r \<Rightarrow> unat (fst r) = unat tot + sum_list (map (size_in_pool p) xs) \<and>
                   snd r = sps \<union> (parents_of_set p (set xs) - S) \<and>
                   (\<forall>a \<in> set xs. descendant_limits_ok p e ldc lds a) \<and>
                   (xs \<noteq> [] \<longrightarrow> unat (fst r) \<le> unat las) \<and>
                   (parents_of_set p (set xs) \<noteq> {} \<longrightarrow> card (snd r) + card S + 1 \<le> unat lac))"
proof (induction xs arbitrary: tot sps)
  case Nil
  then show ?case by (simp add: parents_of_set_empty)
next
  case (Cons x rest)
  from Cons.prems(1) have xA: "x \<in> A" and restA: "set rest \<subseteq> A" by simp_all
  from xA inpool obtain se where se: "mapTx p x = Some se" by auto
  define Px where "Px = pool_inputs p (vin (tx se))"
  have PxA: "Px \<subseteq> A" unfolding Px_def using parents_of_set_member [OF xA se] closedA by blast
  have sz: "size_in_pool p x = unat (nTxSize se)" by (simp add: size_in_pool_def se)
  from fit have Tmax: "unat (nTxSize e) + sum (size_in_pool p) A < 2 ^ 64"
    and cardA: "card A + 1 < 2 ^ 64"
    and ds_fit: "unat (nSizeWithDescendants se) + unat (nTxSize e) < 2 ^ 64"
    and dc_fit: "unat (nCountWithDescendants se) + 1 < 2 ^ 64"
    using xA se unfolding ancestor_sums_fit_def by blast+
  define tot1 where "tot1 = tot + nTxSize se"
  from Cons.prems(4) sz have le1: "unat tot + unat (nTxSize se) + sum_list (map (size_in_pool p) rest)
                                    \<le> unat (nTxSize e) + sum (size_in_pool p) A" by simp
  with Tmax have "unat tot + unat (nTxSize se) < 2 ^ 64" by simp
  then have ut1: "unat tot1 = unat tot + unat (nTxSize se)"
    unfolding tot1_def by (simp add: unat_add_lem [THEN iffD1])
  have ds: "(lds < nSizeWithDescendants se + nTxSize e)
              = (unat lds < unat (nSizeWithDescendants se) + unat (nTxSize e))"
    by (rule word64_add_gt [OF ds_fit])
  have dc: "(ldc < nCountWithDescendants se + 1) = (unat ldc < unat (nCountWithDescendants se) + 1)"
    by (rule word64_add1_gt [OF dc_fit])
  have as: "(las < tot1) = (unat las < unat tot1)" by (simp add: word_less_nat_alt)
  have gp: "GetMemPoolParents p x = Some Px"
    unfolding Px_def by (rule GetMemPoolParents_consistent [OF lc se])
  have finPx: "finite Px" unfolding Px_def by (rule finite_pool_inputs)
  have setPx: "set (sorted_list_of_set Px) = Px" using finPx by simp
  have finS: "finite S" using finite_subset [OF SA finA] .
  have finsps: "finite sps" using finite_subset [OF Cons.prems(2) finA] .
  define sps1 where "sps1 = sps \<union> (Px - S)"
  have sps1A: "sps1 \<subseteq> A" unfolding sps1_def using Cons.prems(2) PxA by auto
  have sps1S: "sps1 \<inter> S = {}" unfolding sps1_def using Cons.prems(3) by auto
  have "sps1 \<union> S \<subseteq> A" using sps1A SA by auto
  from card_mono [OF finA this] have "card (sps1 \<union> S) \<le> card A" .
  moreover have "card (sps1 \<union> S) = card sps1 + card S"
    by (rule card_Un_disjoint [OF finite_subset [OF sps1A finA] finS sps1S])
  ultimately have c1: "card sps1 + card S \<le> card A" by simp
  with cardA have b: "card (sps \<union> (set (sorted_list_of_set Px) - S)) + card S + 1 < 2 ^ 64"
    unfolding setPx sps1_def by simp
  note SP = stage_parents_spec [OF finsps finS Cons.prems(3) b, of lac, unfolded setPx]
  have step: "visit_stage p e S lac las ldc lds (x # rest) (tot, sps) =
      (if lds < nSizeWithDescendants se + nTxSize e
       then Some (Inl (ExceedsDescendantSizeLimit (GetHash (tx se))))
       else if ldc < nCountWithDescendants se + 1
       then Some (Inl (TooManyDescendants (GetHash (tx se))))
       else if las < tot1
       then Some (Inl ExceedsAncestorSizeLimit)
       else (case stage_parents S lac (sorted_list_of_set Px) sps of
               Inl err \<Rightarrow> Some (Inl err)
             | Inr stageParentSet' \<Rightarrow>
                 visit_stage p e S lac las ldc lds rest (tot1, stageParentSet')))"
    unfolding tot1_def by (simp add: se gp Let_def)
  show ?case
  proof (cases "lds < nSizeWithDescendants se + nTxSize e \<or> ldc < nCountWithDescendants se + 1")
    case True
    with ds dc xA se have "ancestor_limit_exceeded p e A lac las ldc lds"
      unfolding ancestor_limit_exceeded_def by blast
    with True show ?thesis by (subst step) auto
  next
    case nodesc: False
    with ds dc have ok_x: "descendant_limits_ok p e ldc lds x"
      unfolding descendant_limits_ok_def using se by (simp add: not_less)
    show ?thesis
    proof (cases "las < tot1")
      case True
      with as ut1 le1 have "unat las < unat (nTxSize e) + sum (size_in_pool p) A" by simp
      then have "ancestor_limit_exceeded p e A lac las ldc lds"
        unfolding ancestor_limit_exceeded_def by blast
      with True nodesc show ?thesis by (subst step) auto
    next
      case noas: False
      with as have as_ok: "unat tot1 \<le> unat las" by simp
      show ?thesis
      proof (cases "stage_parents S lac (sorted_list_of_set Px) sps")
        case (Inl err)
        with SP have "unat lac < card (sps \<union> (Px - S)) + card S + 1" by simp
        with c1 have "unat lac < card A + 1" unfolding sps1_def by simp
        then have "ancestor_limit_exceeded p e A lac las ldc lds"
          unfolding ancestor_limit_exceeded_def by blast
        with Inl nodesc noas show ?thesis by (subst step) auto
      next
        case (Inr sps')
        with SP have e1: "sps' = sps1"
          and cnt: "sorted_list_of_set Px \<noteq> [] \<longrightarrow> card sps' + card S + 1 \<le> unat lac"
          unfolding sps1_def by auto
        have T': "unat tot1 + sum_list (map (size_in_pool p) rest)
                    \<le> unat (nTxSize e) + sum (size_in_pool p) A"
          using le1 ut1 by simp
        from Cons.IH [OF restA sps1A sps1S T'] obtain res where
          r: "visit_stage p e S lac las ldc lds rest (tot1, sps1) = Some res"
          and R: "case res of
                    Inl err \<Rightarrow> ancestor_limit_exceeded p e A lac las ldc lds \<and> rest \<noteq> []
                  | Inr r \<Rightarrow> unat (fst r) = unat tot1 + sum_list (map (size_in_pool p) rest) \<and>
                   snd r = sps1 \<union> (parents_of_set p (set rest) - S) \<and>
                   (\<forall>a \<in> set rest. descendant_limits_ok p e ldc lds a) \<and>
                   (rest \<noteq> [] \<longrightarrow> unat (fst r) \<le> unat las) \<and>
                   (parents_of_set p (set rest) \<noteq> {} \<longrightarrow> card (snd r) + card S + 1 \<le> unat lac)"
          by blast
        have eq: "visit_stage p e S lac las ldc lds (x # rest) (tot, sps) = Some res"
          using Inr e1 nodesc noas r by (subst step) auto
        have Pins: "parents_of_set p (set (x # rest)) = Px \<union> parents_of_set p (set rest)"
          unfolding Px_def using parents_of_set_insert [OF se] by simp
        show ?thesis
        proof (cases res)
          case (Inl err)
          with R eq show ?thesis by auto
        next
          case (Inr r2)
          with R have u: "unat (fst r2) = unat tot1 + sum_list (map (size_in_pool p) rest)"
            and s2: "snd r2 = sps1 \<union> (parents_of_set p (set rest) - S)"
            and okr: "\<forall>a \<in> set rest. descendant_limits_ok p e ldc lds a"
            and lasr: "rest \<noteq> [] \<longrightarrow> unat (fst r2) \<le> unat las"
            and cntr: "parents_of_set p (set rest) \<noteq> {} \<longrightarrow> card (snd r2) + card S + 1 \<le> unat lac"
            by auto
          have g1: "unat (fst r2) = unat tot + sum_list (map (size_in_pool p) (x # rest))"
            using u ut1 sz by simp
          have g2: "snd r2 = sps \<union> (parents_of_set p (set (x # rest)) - S)"
            using s2 Pins unfolding sps1_def by auto
          have g3: "\<forall>a \<in> set (x # rest). descendant_limits_ok p e ldc lds a"
            using okr ok_x by simp
          have g4: "unat (fst r2) \<le> unat las"
          proof (cases "rest = []")
            case True
            with u as_ok show ?thesis by simp
          next
            case False
            with lasr show ?thesis by simp
          qed
          have g5: "parents_of_set p (set (x # rest)) \<noteq> {} \<longrightarrow> card (snd r2) + card S + 1 \<le> unat lac"
          proof (cases "parents_of_set p (set rest) = {}")
            case False
            with cntr show ?thesis by simp
          next
            case True
            with s2 have s3: "snd r2 = sps1" by simp
            show ?thesis
            proof
              assume "parents_of_set p (set (x # rest)) \<noteq> {}"
              with True Pins have "Px \<noteq> {}" by simp
              with finPx have "sorted_list_of_set Px \<noteq> []" by simp
              with cnt e1 s3 show "card (snd r2) + card S + 1 \<le> unat lac" by simp
            qed
          qed
          from eq Inr g1 g2 g3 g4 g5 show ?thesis by simp
        qed
      qed
    qed
  qed
qed

subsection \<open>The search\<close>

lemma parents_of_set_Un: "parents_of_set p (V \<union> W) = parents_of_set p V \<union> parents_of_set p W"
  by (auto simp: parents_of_set_def)

lemma anc_parents_closed: "parents_of_set p (mempool_ancestors p t) \<subseteq> mempool_ancestors p t"
  unfolding parents_of_set_def using anc_step [of _ p t] by (fastforce split: option.splits)

lemma sum_list_sorted_list_of_set:
  "finite P \<Longrightarrow> sum_list (map f (sorted_list_of_set P)) = sum f P"
  using sum_list_distinct_conv_sum_set [of "sorted_list_of_set P" f] by simp

lemma ancestors_loop_spec:
  fixes e :: CTxMemPoolEntry
  assumes lc: "links_consistent p" and fit: "ancestor_sums_fit p e A" and finA: "finite A"
    and closedA: "parents_of_set p A \<subseteq> A"
    and inpool: "A \<subseteq> dom (mapTx p)"
    and least: "\<forall>V. pool_inputs p (vin (tx e)) \<subseteq> V \<and> parents_of_set p V \<subseteq> V \<longrightarrow> A \<subseteq> V"
  shows "P \<subseteq> A \<Longrightarrow> S \<subseteq> A \<Longrightarrow> P \<inter> S = {} \<Longrightarrow>
     pool_inputs p (vin (tx e)) \<subseteq> S \<union> P \<Longrightarrow> parents_of_set p S \<subseteq> S \<union> P \<Longrightarrow>
     unat tot = unat (nTxSize e) + sum (size_in_pool p) S \<Longrightarrow>
     (\<forall>a \<in> S. descendant_limits_ok p e ldc lds a) \<Longrightarrow>
     (S \<noteq> {} \<longrightarrow> unat tot \<le> unat las) \<Longrightarrow>
     (S \<union> P \<noteq> {} \<longrightarrow> card (S \<union> P) + 1 \<le> unat lac) \<Longrightarrow>
     \<exists>r S'. ancestors_loop p e lac las ldc lds P S tot = Some (r, S') \<and>
       (r \<noteq> None \<longrightarrow> ancestor_limit_exceeded p e A lac las ldc lds \<and> A \<noteq> {}) \<and>
       (r = None \<longrightarrow> S' = A \<and> (A \<noteq> {} \<longrightarrow> \<not> ancestor_limit_exceeded p e A lac las ldc lds))"
proof (induction "card (A - S)" arbitrary: P S tot rule: less_induct)
  case less
  note PA = less.prems(1) and SA = less.prems(2) and PS = less.prems(3)
    and direct = less.prems(4) and par = less.prems(5) and tot = less.prems(6)
    and ok = less.prems(7) and las_ok = less.prems(8) and lac_ok = less.prems(9)
  show ?case
  proof (cases "P = {}")
    case True
    with direct par least have "A \<subseteq> S" by simp
    with SA have SeqA: "S = A" by auto
    have "A \<noteq> {} \<Longrightarrow> \<not> ancestor_limit_exceeded p e A lac las ldc lds"
    proof -
      assume ne: "A \<noteq> {}"
      from lac_ok True SeqA ne have a1: "card A + 1 \<le> unat lac" by simp
      from las_ok SeqA ne tot have a2: "unat (nTxSize e) + sum (size_in_pool p) A \<le> unat las" by simp
      from ok SeqA have a3: "\<forall>a \<in> A. descendant_limits_ok p e ldc lds a" by simp
      show ?thesis
        unfolding ancestor_limit_exceeded_def using a1 a2 a3
        by (auto simp: descendant_limits_ok_def not_less dest!: bspec)
    qed
    with True SeqA show ?thesis by (subst ancestors_loop.simps) auto
  next
    case ne: False
    define S1 where "S1 = S \<union> P"
    have S1A: "S1 \<subseteq> A" unfolding S1_def using PA SA by auto
    have finP: "finite P" using finite_subset [OF PA finA] .
    have finS: "finite S" using finite_subset [OF SA finA] .
    have finS1: "finite S1" using finite_subset [OF S1A finA] .
    have setP: "set (sorted_list_of_set P) = P" using finP by simp
    have sumS1: "sum (size_in_pool p) S1 = sum (size_in_pool p) S + sum (size_in_pool p) P"
      unfolding S1_def using PS by (intro sum.union_disjoint finS finP) auto
    have "sum (size_in_pool p) S1 \<le> sum (size_in_pool p) A"
      by (rule sum_mono2 [OF finA S1A]) simp
    with sumS1 tot have T: "unat tot + sum_list (map (size_in_pool p) (sorted_list_of_set P))
                              \<le> unat (nTxSize e) + sum (size_in_pool p) A"
      by (simp add: sum_list_sorted_list_of_set [OF finP])
    have xsA: "set (sorted_list_of_set P) \<subseteq> A" using PA setP by simp
    from visit_stage_spec [where sps = "{}" and lac = lac and las = las and ldc = ldc and lds = lds,
        OF lc fit finA S1A closedA inpool xsA _ _ T]
    obtain res where
      r: "visit_stage p e S1 lac las ldc lds (sorted_list_of_set P) (tot, {}) = Some res"
      and R: "case res of
          Inl err \<Rightarrow> ancestor_limit_exceeded p e A lac las ldc lds \<and> sorted_list_of_set P \<noteq> []
        | Inr r \<Rightarrow> unat (fst r) = unat tot + sum_list (map (size_in_pool p) (sorted_list_of_set P)) \<and>
                   snd r = {} \<union> (parents_of_set p (set (sorted_list_of_set P)) - S1) \<and>
                   (\<forall>a \<in> set (sorted_list_of_set P). descendant_limits_ok p e ldc lds a) \<and>
                   (sorted_list_of_set P \<noteq> [] \<longrightarrow> unat (fst r) \<le> unat las) \<and>
                   (parents_of_set p (set (sorted_list_of_set P)) \<noteq> {} \<longrightarrow> card (snd r) + card S1 + 1 \<le> unat lac)"
      by auto
    have Ane: "A \<noteq> {}" using ne PA by auto
    show ?thesis
    proof (cases res)
      case (Inl err)
      with R r ne Ane show ?thesis
        by (subst ancestors_loop.simps) (simp add: S1_def [symmetric])
    next
      case (Inr r2)
      obtain tot' sps' where r2: "r2 = (tot', sps')" by (cases r2)
      from R Inr r2 setP ne finP
      have u: "unat tot' = unat tot + sum (size_in_pool p) P"
        and s2: "sps' = parents_of_set p P - S1"
        and okP: "\<forall>a \<in> P. descendant_limits_ok p e ldc lds a"
        and las': "unat tot' \<le> unat las"
        and cnt: "parents_of_set p P \<noteq> {} \<longrightarrow> card sps' + card S1 + 1 \<le> unat lac"
        by (auto simp: sum_list_sorted_list_of_set)
      have eq: "ancestors_loop p e lac las ldc lds P S tot = ancestors_loop p e lac las ldc lds sps' S1 tot'"
        using r Inr r2 ne by (subst ancestors_loop.simps) (simp add: S1_def [symmetric])
      have parPA: "parents_of_set p P \<subseteq> A" using parents_of_set_mono [OF PA] closedA by blast
      have i1: "sps' \<subseteq> A" using s2 parPA by auto
      have i3: "sps' \<inter> S1 = {}" using s2 by auto
      have i4: "pool_inputs p (vin (tx e)) \<subseteq> S1 \<union> sps'" using direct unfolding S1_def by auto
      have i5: "parents_of_set p S1 \<subseteq> S1 \<union> sps'"
        unfolding S1_def parents_of_set_Un using par s2 unfolding S1_def by auto
      have i6: "unat tot' = unat (nTxSize e) + sum (size_in_pool p) S1" using u tot sumS1 by simp
      have i7: "\<forall>a \<in> S1. descendant_limits_ok p e ldc lds a" using ok okP unfolding S1_def by auto
      have i8: "S1 \<noteq> {} \<longrightarrow> unat tot' \<le> unat las" using las' by simp
      have i9: "S1 \<union> sps' \<noteq> {} \<longrightarrow> card (S1 \<union> sps') + 1 \<le> unat lac"
      proof (cases "sps' = {}")
        case True
        with lac_ok ne show ?thesis unfolding S1_def by simp
      next
        case False
        with s2 have "parents_of_set p P \<noteq> {}" by auto
        with cnt have "card sps' + card S1 + 1 \<le> unat lac" by simp
        moreover have "card (S1 \<union> sps') = card S1 + card sps'"
          using i3 by (intro card_Un_disjoint finS1 finite_subset [OF i1 finA]) auto
        ultimately show ?thesis by simp
      qed
      have "A - S1 \<subset> A - S" using ne PA PS unfolding S1_def by auto
      then have m: "card (A - S1) < card (A - S)" using finA by (intro psubset_card_mono) auto
      from less.hyps [OF m i1 S1A i3 i4 i5 i6 i7 i8 i9] eq show ?thesis by simp
    qed
  qed
qed

subsection \<open>The search on the sample pool\<close>

lemma mapTx_A: "mapTx poolA = [7 \<mapsto> entryA]"
  by (simp add: poolA_def)

lemma inputs_A_A: "pool_inputs poolA (vin (tx entryA)) = {}"
  by (simp add: pool_inputs_def mapTx_A entryA_def mkEntry_def txA_def)

lemma inputs_A_B: "pool_inputs poolA (vin (tx entryB)) = {7}"
  by (simp add: pool_inputs_def mapTx_A entryB_def mkEntry_def txB_def)

lemma inputs_A_Big: "pool_inputs poolA (vin (tx entryBig)) = {}"
  by (simp add: pool_inputs_def mapTx_A entryBig_def mkEntry_def txC_def)

lemma finite_A: "finite (dom (mapTx poolA))"
  by (simp add: mapTx_A)

lemma links_consistent_A: "links_consistent poolA"
  unfolding links_consistent_def
proof (intro allI impI)
  fix h and e :: CTxMemPoolEntry
  assume "mapTx poolA h = Some e"
  then have h: "h = 7" and e: "e = entryA" by (auto simp: mapTx_A split: if_split_asm)
  show "\<exists>l. mapLinks poolA h = Some l \<and> parents l = pool_inputs poolA (vin (tx e))"
    unfolding h e inputs_A_A by (simp add: poolA_def)
qed

lemma anc_A_B: "mempool_ancestors poolA (tx entryB) = {7}"
proof
  show "mempool_ancestors poolA (tx entryB) \<subseteq> {7}"
  proof (rule anc_least)
    show "pool_inputs poolA (vin (tx entryB)) \<subseteq> {7}" by (simp add: inputs_A_B)
  next
    fix x and ex :: CTxMemPoolEntry
    assume "x \<in> {7}" "mapTx poolA x = Some ex"
    then have "ex = entryA" by (simp add: mapTx_A)
    then show "pool_inputs poolA (vin (tx ex)) \<subseteq> {7}" by (simp add: inputs_A_A)
  qed
  show "{7} \<subseteq> mempool_ancestors poolA (tx entryB)"
    using anc_direct [of poolA "tx entryB"] by (simp add: inputs_A_B)
qed

lemma anc_A_Big: "mempool_ancestors poolA (tx entryBig) = {}"
proof -
  have "mempool_ancestors poolA (tx entryBig) \<subseteq> {}"
    by (rule anc_least) (simp_all add: inputs_A_Big)
  then show ?thesis by simp
qed

lemma sums_fit_A_B: "ancestor_sums_fit poolA entryB (mempool_ancestors poolA (tx entryB))"
  unfolding anc_A_B ancestor_sums_fit_def
  by (simp add: mapTx_A size_in_pool_def entryA_def entryB_def mkEntry_def)

lemma calc_A_B: "CalculateMemPoolAncestors poolA entryB {} 25 101000 25 101000 = Some (None, {7})"
  apply (simp add: CalculateMemPoolAncestors_def entryB_def mkEntry_def txB_def mapTx_A)
  apply (subst ancestors_loop.simps)
  apply (simp add: mapTx_A entryA_def mkEntry_def GetMemPoolParents_def poolA_def)
  apply (subst ancestors_loop.simps)
  apply simp
  done

lemma calc_A_Big: "CalculateMemPoolAncestors poolA entryBig {} 25 101000 25 101000 = Some (None, {})"
  by (simp add: CalculateMemPoolAncestors_def entryBig_def mkEntry_def txC_def mapTx_A ancestors_loop.simps)

subsection \<open>When the search fails\<close>

text \<open>
  Claim C4. Let the pool be finite, let \<open>mapLinks\<close> record as the parents of every entry
  the transactions of the pool that it spends from, and let none of the sums compared
  wrap around. Then \<open>CalculateMemPoolAncestors\<close>, called with an empty \<open>setAncestors\<close>,
  returns; it returns false exactly when the entry has an in-mempool ancestor and one of
  the four limits is exceeded over the set of its in-mempool ancestors (their number plus
  one against the ancestor-count limit, the size or the count with descendants of one of
  them against the descendant limits, the size of the entry plus theirs against the
  ancestor-size limit); and where it returns true, \<open>setAncestors\<close> is exactly the set of
  in-mempool ancestors of the entry.
\<close>

theorem C4_ancestor_limits:
  fixes entry :: CTxMemPoolEntry
  assumes fin: "finite (dom (mapTx p))" and lc: "links_consistent p"
    and fit: "ancestor_sums_fit p entry (mempool_ancestors p (tx entry))"
  shows "\<exists>r S. CalculateMemPoolAncestors p entry {} lac las ldc lds = Some (r, S) \<and>
           ((r \<noteq> None) = (mempool_ancestors p (tx entry) \<noteq> {} \<and>
               ancestor_limit_exceeded p entry (mempool_ancestors p (tx entry)) lac las ldc lds)) \<and>
           (r = None \<longrightarrow> S = mempool_ancestors p (tx entry))"
proof -
  define A where "A = mempool_ancestors p (tx entry)"
  have finA: "finite A" unfolding A_def by (rule anc_finite [OF fin])
  have inpool: "A \<subseteq> dom (mapTx p)" unfolding A_def by (auto dest: mempool_ancestors_in_pool)
  have closedA: "parents_of_set p A \<subseteq> A" unfolding A_def by (rule anc_parents_closed)
  have directA: "pool_inputs p (vin (tx entry)) \<subseteq> A" unfolding A_def by (rule anc_direct)
  have least: "\<forall>V. pool_inputs p (vin (tx entry)) \<subseteq> V \<and> parents_of_set p V \<subseteq> V \<longrightarrow> A \<subseteq> V"
  proof (intro allI impI, elim conjE)
    fix V assume d: "pool_inputs p (vin (tx entry)) \<subseteq> V" and c: "parents_of_set p V \<subseteq> V"
    show "A \<subseteq> V" unfolding A_def
    proof (rule anc_least [OF d])
      fix x ex assume "x \<in> V" "mapTx p x = Some ex"
      from parents_of_set_member [OF this] c show "pool_inputs p (vin (tx ex)) \<subseteq> V" by blast
    qed
  qed
  note fitA = fit [folded A_def]
  from fitA have cardA: "card A + 1 < 2 ^ 64" unfolding ancestor_sums_fit_def by blast
  have "card (pool_inputs p (vin (tx entry))) \<le> card A" by (rule card_mono [OF finA directA])
  with cardA have b: "card ({} \<union> pool_inputs p (vin (tx entry))) + 1 < 2 ^ 64" by simp
  note SV = scan_vin_spec [OF finite.emptyI b, of lac]
  have "\<exists>r S. CalculateMemPoolAncestors p entry {} lac las ldc lds = Some (r, S) \<and>
           ((r \<noteq> None) = (A \<noteq> {} \<and> ancestor_limit_exceeded p entry A lac las ldc lds)) \<and>
           (r = None \<longrightarrow> S = A)"
  proof (cases "scan_vin p lac (vin (tx entry)) {}")
    case (Inl err)
    with SV have ne: "pool_inputs p (vin (tx entry)) \<noteq> {}"
      and c: "unat lac < card (pool_inputs p (vin (tx entry))) + 1" by simp_all
    from c card_mono [OF finA directA] have "unat lac < card A + 1" by simp
    then have "ancestor_limit_exceeded p entry A lac las ldc lds"
      unfolding ancestor_limit_exceeded_def by blast
    moreover from ne directA have "A \<noteq> {}" by auto
    ultimately show ?thesis using Inl by (simp add: CalculateMemPoolAncestors_def)
  next
    case (Inr ph)
    with SV have ph: "ph = pool_inputs p (vin (tx entry))"
      and c: "ph \<noteq> {} \<longrightarrow> card ph + 1 \<le> unat lac" by auto
    have j1: "ph \<subseteq> A" using ph directA by simp
    have j4: "pool_inputs p (vin (tx entry)) \<subseteq> {} \<union> ph" using ph by simp
    have j5: "parents_of_set p {} \<subseteq> {} \<union> ph" by (simp add: parents_of_set_empty)
    have j6: "unat (nTxSize entry) = unat (nTxSize entry) + sum (size_in_pool p) {}" by simp
    have j9: "{} \<union> ph \<noteq> {} \<longrightarrow> card ({} \<union> ph) + 1 \<le> unat lac" using c by simp
    from ancestors_loop_spec [where S = "{}" and P = ph and ldc = ldc and lds = lds and las = las,
        OF lc fitA finA closedA inpool least j1 _ _ j4 j5 j6 _ _ j9]
    obtain r S' where
      "ancestors_loop p entry lac las ldc lds ph {} (nTxSize entry) = Some (r, S')"
      "r \<noteq> None \<longrightarrow> ancestor_limit_exceeded p entry A lac las ldc lds \<and> A \<noteq> {}"
      "r = None \<longrightarrow> S' = A \<and> (A \<noteq> {} \<longrightarrow> \<not> ancestor_limit_exceeded p entry A lac las ldc lds)"
      by auto
    with Inr show ?thesis by (auto simp: CalculateMemPoolAncestors_def)
  qed
  then show ?thesis unfolding A_def .
qed

theorem C4_ancestor_limits_witness:
  "finite (dom (mapTx poolA)) \<and> links_consistent poolA \<and>
   ancestor_sums_fit poolA entryB (mempool_ancestors poolA (tx entryB)) \<and>
   CalculateMemPoolAncestors poolA entryB {} 25 101000 25 101000 = Some (None, {7}) \<and>
   mempool_ancestors poolA (tx entryB) = {7} \<and>
   \<not> ancestor_limit_exceeded poolA entryB (mempool_ancestors poolA (tx entryB)) 25 101000 25 101000"
proof -
  from C4_ancestor_limits [OF finite_A links_consistent_A sums_fit_A_B, of 25 101000 25 101000]
  obtain r S where
    c: "CalculateMemPoolAncestors poolA entryB {} 25 101000 25 101000 = Some (r, S)"
    and i: "(r \<noteq> None) = (mempool_ancestors poolA (tx entryB) \<noteq> {} \<and>
               ancestor_limit_exceeded poolA entryB (mempool_ancestors poolA (tx entryB)) 25 101000 25 101000)"
    by blast
  from c calc_A_B have "r = None" by simp
  with i anc_A_B
  have n: "\<not> ancestor_limit_exceeded poolA entryB (mempool_ancestors poolA (tx entryB)) 25 101000 25 101000"
    by simp
  show ?thesis
    by (intro conjI) (rule finite_A links_consistent_A sums_fit_A_B calc_A_B anc_A_B n)+
qed

text \<open>
  For an entry with no parent in the pool no limit is checked: \<open>entryBig\<close> alone is larger
  than the ancestor-size limit of 101000 bytes, and the call returns true.
\<close>

theorem C4_no_parent_counterexample:
  "mempool_ancestors poolA (tx entryBig) = {} \<and>
   unat (101000 :: uint64) < unat (nTxSize entryBig)
        + sum (size_in_pool poolA) (mempool_ancestors poolA (tx entryBig)) \<and>
   CalculateMemPoolAncestors poolA entryBig {} 25 101000 25 101000 = Some (None, {})"
  unfolding anc_A_Big by (simp add: calc_A_Big) (simp add: entryBig_def mkEntry_def)

section \<open>Adding an entry and removing it again\<close>

subsection \<open>The iterations of the two paths in closed form\<close>

lemma foreach_UpdateState:
  assumes "distinct xs" and "set xs \<subseteq> dom (mapTx q)"
  shows "foreach (\<lambda>a q. case mapTx q a of None \<Rightarrow> None
                    | Some u \<Rightarrow> Some (q\<lparr>mapTx := (mapTx q)(a \<mapsto> UpdateState u s f c)\<rparr>)) xs q
       = Some (q\<lparr>mapTx := (\<lambda>y. if y \<in> set xs then map_option (\<lambda>u. UpdateState u s f c) (mapTx q y)
                               else mapTx q y)\<rparr>)"
  using assms
proof (induction xs arbitrary: q)
  case Nil
  then show ?case by simp
next
  case (Cons x xs)
  from Cons.prems obtain u where u: "mapTx q x = Some u" by auto
  define q1 where "q1 = q\<lparr>mapTx := (mapTx q)(x \<mapsto> UpdateState u s f c)\<rparr>"
  have d: "distinct xs" and s1: "set xs \<subseteq> dom (mapTx q1)" and nx: "x \<notin> set xs"
    using Cons.prems by (auto simp: q1_def)
  have "(\<lambda>y. if y \<in> set xs then map_option (\<lambda>u. UpdateState u s f c) (mapTx q1 y) else mapTx q1 y)
      = (\<lambda>y. if y \<in> set (x # xs) then map_option (\<lambda>u. UpdateState u s f c) (mapTx q y) else mapTx q y)"
    using nx u by (auto simp: fun_eq_iff q1_def)
  with Cons.IH [OF d s1] u show ?case by (simp add: q1_def)
qed

lemma links_at_UpdateChild_other:
  "y \<noteq> x \<Longrightarrow> links_at (UpdateChild mu q x h b) y = links_at q y"
  by (simp add: links_at_def UpdateChild_def Let_def)

lemma mapTx_UpdateChild: "mapTx (UpdateChild mu q x h b) = mapTx q"
  by (simp add: UpdateChild_def Let_def)

lemma foreach_UpdateChild_add:
  assumes "distinct xs" and "set xs \<subseteq> dom (mapTx q)"
    and "\<forall>y \<in> set xs. h \<notin> children (links_at q y)"
  shows "foreach (\<lambda>phash q. if mapTx q phash = None then None
                            else Some (UpdateChild mu q phash h True)) xs q
     = Some (q\<lparr>mapLinks := (\<lambda>y. if y \<in> set xs
                                then Some ((links_at q y)\<lparr>children := insert h (children (links_at q y))\<rparr>)
                                else mapLinks q y),
              cachedInnerUsage := cachedInnerUsage q + muSetNode mu * of_nat (length xs)\<rparr>)"
  using assms
proof (induction xs arbitrary: q)
  case Nil
  then show ?case by simp
next
  case (Cons x xs)
  define q1 where "q1 = UpdateChild mu q x h True"
  from Cons.prems have inx: "mapTx q x \<noteq> None" and nx: "x \<notin> set xs" and d: "distinct xs"
    and hx: "h \<notin> children (links_at q x)" by auto
  have l1: "\<And>y. y \<in> set xs \<Longrightarrow> links_at q1 y = links_at q y"
    unfolding q1_def using nx by (intro links_at_UpdateChild_other) auto
  have s1: "set xs \<subseteq> dom (mapTx q1)" using Cons.prems(2) by (simp add: q1_def mapTx_UpdateChild)
  have c1: "\<forall>y \<in> set xs. h \<notin> children (links_at q1 y)" using Cons.prems(3) l1 by simp
  have q1: "q1 = q\<lparr>mapLinks := (mapLinks q)(x \<mapsto> (links_at q x)\<lparr>children := insert h (children (links_at q x))\<rparr>),
                   cachedInnerUsage := cachedInnerUsage q + muSetNode mu\<rparr>"
    unfolding q1_def using hx by (simp add: UpdateChild_def Let_def)
  have f: "(\<lambda>y. if y \<in> set xs
                then Some ((links_at q1 y)\<lparr>children := insert h (children (links_at q1 y))\<rparr>)
                else mapLinks q1 y)
         = (\<lambda>y. if y \<in> set (x # xs)
                then Some ((links_at q y)\<lparr>children := insert h (children (links_at q y))\<rparr>)
                else mapLinks q y)"
    using nx l1 by (auto simp: fun_eq_iff q1)
  have "foreach (\<lambda>phash q. if mapTx q phash = None then None
                            else Some (UpdateChild mu q phash h True)) (x # xs) q
      = foreach (\<lambda>phash q. if mapTx q phash = None then None
                            else Some (UpdateChild mu q phash h True)) xs q1"
    using inx by (auto simp: q1_def)
  also note Cons.IH [OF d s1 c1]
  finally show ?case unfolding f by (simp add: q1 algebra_simps)
qed

lemma foreach_UpdateChild_remove:
  assumes "distinct xs" and "set xs \<subseteq> dom (mapTx q)"
    and "\<forall>y \<in> set xs. h \<in> children (links_at q y)"
  shows "foreach (\<lambda>phash q. if mapTx q phash = None then None
                            else Some (UpdateChild mu q phash h False)) xs q
     = Some (q\<lparr>mapLinks := (\<lambda>y. if y \<in> set xs
                                then Some ((links_at q y)\<lparr>children := children (links_at q y) - {h}\<rparr>)
                                else mapLinks q y),
              cachedInnerUsage := cachedInnerUsage q - muSetNode mu * of_nat (length xs)\<rparr>)"
  using assms
proof (induction xs arbitrary: q)
  case Nil
  then show ?case by simp
next
  case (Cons x xs)
  define q1 where "q1 = UpdateChild mu q x h False"
  from Cons.prems have inx: "mapTx q x \<noteq> None" and nx: "x \<notin> set xs" and d: "distinct xs"
    and hx: "h \<in> children (links_at q x)" by auto
  have l1: "\<And>y. y \<in> set xs \<Longrightarrow> links_at q1 y = links_at q y"
    unfolding q1_def using nx by (intro links_at_UpdateChild_other) auto
  have s1: "set xs \<subseteq> dom (mapTx q1)" using Cons.prems(2) by (simp add: q1_def mapTx_UpdateChild)
  have c1: "\<forall>y \<in> set xs. h \<in> children (links_at q1 y)" using Cons.prems(3) l1 by simp
  have q1: "q1 = q\<lparr>mapLinks := (mapLinks q)(x \<mapsto> (links_at q x)\<lparr>children := children (links_at q x) - {h}\<rparr>),
                   cachedInnerUsage := cachedInnerUsage q - muSetNode mu\<rparr>"
    unfolding q1_def using hx by (simp add: UpdateChild_def Let_def)
  have f: "(\<lambda>y. if y \<in> set xs
                then Some ((links_at q1 y)\<lparr>children := children (links_at q1 y) - {h}\<rparr>)
                else mapLinks q1 y)
         = (\<lambda>y. if y \<in> set (x # xs)
                then Some ((links_at q y)\<lparr>children := children (links_at q y) - {h}\<rparr>)
                else mapLinks q y)"
    using nx l1 by (auto simp: fun_eq_iff q1)
  have "foreach (\<lambda>phash q. if mapTx q phash = None then None
                            else Some (UpdateChild mu q phash h False)) (x # xs) q
      = foreach (\<lambda>phash q. if mapTx q phash = None then None
                            else Some (UpdateChild mu q phash h False)) xs q1"
    using inx by (auto simp: q1_def)
  also note Cons.IH [OF d s1 c1]
  finally show ?case unfolding f by (simp add: q1 algebra_simps)
qed

lemma fold_UpdateParent_add:
  assumes "distinct xs" and "mapLinks q h = Some l" and "set xs \<inter> parents l = {}"
  shows "fold (\<lambda>phash q. if mapTx q phash \<noteq> None then UpdateParent mu q h phash True else q) xs q
     = q\<lparr>mapLinks := (mapLinks q)(h \<mapsto> l\<lparr>parents := parents l \<union> set (filter (\<lambda>x. mapTx q x \<noteq> None) xs)\<rparr>),
         cachedInnerUsage := cachedInnerUsage q
             + muSetNode mu * of_nat (length (filter (\<lambda>x. mapTx q x \<noteq> None) xs))\<rparr>"
  using assms
proof (induction xs arbitrary: q l)
  case Nil
  then have "(mapLinks q)(h \<mapsto> l) = mapLinks q" by (auto simp: fun_eq_iff)
  then show ?case by simp
next
  case (Cons x xs)
  from Cons.prems have nx: "x \<notin> set xs" and d: "distinct xs" and xl: "x \<notin> parents l"
    and dj: "set xs \<inter> parents l = {}" by auto
  show ?case
  proof (cases "mapTx q x = None")
    case True
    with Cons.IH [OF d Cons.prems(2) dj] show ?thesis by simp
  next
    case False
    define l1 where "l1 = l\<lparr>parents := insert x (parents l)\<rparr>"
    define q1 where "q1 = q\<lparr>mapLinks := (mapLinks q)(h \<mapsto> l1),
                             cachedInnerUsage := cachedInnerUsage q + muSetNode mu\<rparr>"
    have up: "UpdateParent mu q h x True = q1"
      using xl Cons.prems(2) by (simp add: UpdateParent_def links_at_def Let_def q1_def l1_def)
    have m1: "mapLinks q1 h = Some l1" by (simp add: q1_def)
    have dj1: "set xs \<inter> parents l1 = {}" using dj nx by (simp add: l1_def)
    have t: "mapTx q1 = mapTx q" by (simp add: q1_def)
    have r: "q1\<lparr>mapLinks := (mapLinks q1)(h \<mapsto> l1\<lparr>parents := parents l1 \<union> set (filter (\<lambda>x. mapTx q x \<noteq> None) xs)\<rparr>),
         cachedInnerUsage := cachedInnerUsage q1
             + muSetNode mu * of_nat (length (filter (\<lambda>x. mapTx q x \<noteq> None) xs))\<rparr>
       = q\<lparr>mapLinks := (mapLinks q)(h \<mapsto> l\<lparr>parents := parents l \<union> set (filter (\<lambda>x. mapTx q x \<noteq> None) (x # xs))\<rparr>),
         cachedInnerUsage := cachedInnerUsage q
             + muSetNode mu * of_nat (length (filter (\<lambda>x. mapTx q x \<noteq> None) (x # xs)))\<rparr>"
      using False by (simp add: q1_def l1_def distrib_left add.assoc)
    have "fold (\<lambda>phash q. if mapTx q phash \<noteq> None then UpdateParent mu q h phash True else q) (x # xs) q
        = fold (\<lambda>phash q. if mapTx q phash \<noteq> None then UpdateParent mu q h phash True else q) xs q1"
      using False up by simp
    also note Cons.IH [OF d m1 dj1, unfolded t]
    also note r
    finally show ?thesis .
  qed
qed

lemma fold_erase_prevouts:
  "fold (\<lambda>txin m. m(prevout txin := None)) ins m
     = (\<lambda>k. if k \<in> prevout ` set ins then None else m k)"
  by (induction ins arbitrary: m) (auto simp: fun_eq_iff)

lemma fold_spend_frame:
  assumes "k \<notin> prevout ` set ins" and "set js \<subseteq> {..<length ins}"
  shows "fold (\<lambda>i m. m(prevout (ins ! i) \<mapsto> (t, i))) js m k = m k"
  using assms
proof (induction js arbitrary: m)
  case Nil
  then show ?case by simp
next
  case (Cons j js)
  from Cons.prems have "prevout (ins ! j) \<noteq> k" by (auto simp: image_iff)
  with Cons show ?case by simp
qed

lemma spend_then_erase:
  assumes "\<forall>txin \<in> set ins. m (prevout txin) = None"
  shows "fold (\<lambda>txin m. m(prevout txin := None)) ins
           (fold (\<lambda>i m. m(prevout (ins ! i) \<mapsto> (t, i))) [0 ..< length ins] m) = m"
proof
  fix k
  show "fold (\<lambda>txin m. m(prevout txin := None)) ins
           (fold (\<lambda>i m. m(prevout (ins ! i) \<mapsto> (t, i))) [0 ..< length ins] m) k = m k"
  proof (cases "k \<in> prevout ` set ins")
    case True
    with assms show ?thesis by (auto simp: fold_erase_prevouts)
  next
    case False
    have "set [0 ..< length ins] \<subseteq> {..<length ins}" by auto
    from fold_spend_frame [OF False this] False show ?thesis by (simp add: fold_erase_prevouts)
  qed
qed

subsection \<open>The ancestor search without limits\<close>

lemma nNoLimit_max: "\<not> nNoLimit < x"
  by (simp add: nNoLimit_def not_less)

lemma scan_vin_nolimit: "scan_vin p nNoLimit ins ph = Inr (ph \<union> pool_inputs p ins)"
  by (induction ins arbitrary: ph) (auto simp: pool_inputs_Nil pool_inputs_Cons nNoLimit_max Let_def)

lemma stage_parents_nolimit: "stage_parents S nNoLimit ys sps = Inr (sps \<union> (set ys - S))"
  by (induction ys arbitrary: sps) (auto simp: nNoLimit_max Let_def)

lemma link_parents_empty: "link_parents p {} = {}"
  by (simp add: link_parents_def)

lemma link_parents_insert:
  "mapLinks p x = Some l \<Longrightarrow> link_parents p (insert x V) = parents l \<union> link_parents p V"
  by (simp add: link_parents_def)

lemma link_parents_Un: "link_parents p (V \<union> W) = link_parents p V \<union> link_parents p W"
  by (auto simp: link_parents_def)

lemma link_parents_closed:
  "links_closed p \<Longrightarrow> V \<subseteq> dom (mapTx p) \<Longrightarrow> link_parents p V \<subseteq> dom (mapTx p)"
  unfolding links_closed_def link_parents_def by (fastforce split: option.splits)

lemma link_parents_ancestors:
  "V \<subseteq> link_ancestors p ins \<Longrightarrow> link_parents p V \<subseteq> link_ancestors p ins"
proof
  fix h assume V: "V \<subseteq> link_ancestors p ins" and "h \<in> link_parents p V"
  then obtain c l where "c \<in> V" "mapLinks p c = Some l" "h \<in> parents l"
    unfolding link_parents_def by (auto split: option.split_asm)
  with V show "h \<in> link_ancestors p ins" by (meson link_ancestors.step subsetD)
qed

lemma link_ancestors_least:
  assumes "pool_inputs p ins \<subseteq> S" and "link_parents p S \<subseteq> S"
  shows "link_ancestors p ins \<subseteq> S"
proof
  fix h assume "h \<in> link_ancestors p ins"
  then show "h \<in> S"
  proof (induction rule: link_ancestors.induct)
    case (direct h)
    with assms(1) show ?case by blast
  next
    case (step c l h)
    then have "h \<in> link_parents p S" unfolding link_parents_def by (intro UN_I [of c]) simp_all
    with assms(2) show ?case by blast
  qed
qed

lemma pool_inputs_in_pool: "pool_inputs p ins \<subseteq> dom (mapTx p)"
  by (auto simp: pool_inputs_def)

lemma link_ancestors_in_pool:
  assumes "links_closed p"
  shows "link_ancestors p ins \<subseteq> dom (mapTx p)"
  by (rule link_ancestors_least [OF pool_inputs_in_pool link_parents_closed [OF assms subset_refl]])

lemma visit_stage_nolimit:
  assumes fin: "finite (dom (mapTx p))" and lc: "links_closed p"
  shows "set xs \<subseteq> dom (mapTx p) \<Longrightarrow>
     \<exists>tot'. visit_stage p e S nNoLimit nNoLimit nNoLimit nNoLimit xs (tot, sps)
              = Some (Inr (tot', sps \<union> (link_parents p (set xs) - S)))"
proof (induction xs arbitrary: tot sps)
  case Nil
  then show ?case by (simp add: link_parents_empty)
next
  case (Cons x xs)
  from Cons.prems obtain se where se: "mapTx p x = Some se" by auto
  with lc obtain l where l: "mapLinks p x = Some l" and pl: "parents l \<subseteq> dom (mapTx p)"
    unfolding links_closed_def by blast
  have finl: "finite (parents l)" by (rule finite_subset [OF pl fin])
  from Cons.prems have xs: "set xs \<subseteq> dom (mapTx p)" by simp
  from Cons.IH [OF xs, of "tot + nTxSize se" "sps \<union> (parents l - S)"]
  obtain tot' where
    r: "visit_stage p e S nNoLimit nNoLimit nNoLimit nNoLimit xs (tot + nTxSize se, sps \<union> (parents l - S))
         = Some (Inr (tot', sps \<union> (parents l - S) \<union> (link_parents p (set xs) - S)))"
    by blast
  have u: "sps \<union> (parents l - S) \<union> (link_parents p (set xs) - S)
         = sps \<union> (link_parents p (set (x # xs)) - S)"
    using link_parents_insert [OF l, of "set xs"] by auto
  show ?case
    using r finl unfolding u
    by (simp add: se l GetMemPoolParents_def nNoLimit_max stage_parents_nolimit Let_def)
qed

lemma ancestors_loop_nolimit:
  assumes fin: "finite (dom (mapTx p))" and lc: "links_closed p"
  shows "P \<subseteq> dom (mapTx p) \<Longrightarrow> S \<subseteq> dom (mapTx p) \<Longrightarrow> P \<inter> S = {} \<Longrightarrow>
     S \<union> P \<subseteq> link_ancestors p ins \<Longrightarrow> pool_inputs p ins \<subseteq> S \<union> P \<Longrightarrow>
     link_parents p S \<subseteq> S \<union> P \<Longrightarrow>
     ancestors_loop p e nNoLimit nNoLimit nNoLimit nNoLimit P S tot = Some (None, link_ancestors p ins)"
proof (induction "card (dom (mapTx p) - S)" arbitrary: P S tot rule: less_induct)
  case less
  note PD = less.prems(1) and SD = less.prems(2) and PS = less.prems(3)
    and sub = less.prems(4) and direct = less.prems(5) and par = less.prems(6)
  show ?case
  proof (cases "P = {}")
    case True
    with direct par have "link_ancestors p ins \<subseteq> S" by (intro link_ancestors_least) simp_all
    with sub True have "S = link_ancestors p ins" by auto
    with True show ?thesis by (subst ancestors_loop.simps) simp
  next
    case ne: False
    define S1 where "S1 = S \<union> P"
    have finP: "finite P" by (rule finite_subset [OF PD fin])
    have xs: "set (sorted_list_of_set P) \<subseteq> dom (mapTx p)" using PD finP by simp
    from visit_stage_nolimit [OF fin lc xs, of e S1 tot "{}"] finP
    obtain tot' where
      r: "visit_stage p e S1 nNoLimit nNoLimit nNoLimit nNoLimit (sorted_list_of_set P) (tot, {})
           = Some (Inr (tot', link_parents p P - S1))"
      by auto
    define P1 where "P1 = link_parents p P - S1"
    have eq: "ancestors_loop p e nNoLimit nNoLimit nNoLimit nNoLimit P S tot
            = ancestors_loop p e nNoLimit nNoLimit nNoLimit nNoLimit P1 S1 tot'"
      using ne r by (subst ancestors_loop.simps) (simp add: S1_def [symmetric] P1_def)
    have i1: "P1 \<subseteq> dom (mapTx p)" unfolding P1_def using link_parents_closed [OF lc PD] by auto
    have i2: "S1 \<subseteq> dom (mapTx p)" unfolding S1_def using PD SD by auto
    have i3: "P1 \<inter> S1 = {}" unfolding P1_def by auto
    have "P \<subseteq> link_ancestors p ins" using sub by auto
    from link_parents_ancestors [OF this] sub
    have i4: "S1 \<union> P1 \<subseteq> link_ancestors p ins" unfolding P1_def S1_def by auto
    have i5: "pool_inputs p ins \<subseteq> S1 \<union> P1" using direct unfolding S1_def by auto
    have i6: "link_parents p S1 \<subseteq> S1 \<union> P1"
      unfolding S1_def link_parents_Un P1_def using par unfolding S1_def by auto
    have "dom (mapTx p) - S1 \<subset> dom (mapTx p) - S" using ne PD PS unfolding S1_def by auto
    then have m: "card (dom (mapTx p) - S1) < card (dom (mapTx p) - S)"
      using fin by (intro psubset_card_mono) auto
    from less.hyps [OF m i1 i2 i3 i4 i5 i6] eq show ?thesis by simp
  qed
qed

lemma CalculateMemPoolAncestors_nolimit:
  assumes fin: "finite (dom (mapTx p))" and lc: "links_closed p"
  shows "CalculateMemPoolAncestors p e {} nNoLimit nNoLimit nNoLimit nNoLimit
           = Some (None, link_ancestors p (vin (tx e)))"
proof -
  have a: "{} \<union> pool_inputs p (vin (tx e)) \<subseteq> link_ancestors p (vin (tx e))"
    by (auto intro: link_ancestors.direct)
  have "ancestors_loop p e nNoLimit nNoLimit nNoLimit nNoLimit (pool_inputs p (vin (tx e))) {} (nTxSize e)
          = Some (None, link_ancestors p (vin (tx e)))"
    by (rule ancestors_loop_nolimit [OF fin lc pool_inputs_in_pool _ _ a])
       (simp_all add: link_parents_empty)
  then show ?thesis by (simp add: CalculateMemPoolAncestors_def scan_vin_nolimit)
qed

subsection \<open>The pool after the add\<close>

lemma pool_inputs_filter:
  "pool_inputs p ins = {x \<in> (\<lambda>txin. fst (prevout txin)) ` set ins. mapTx p x \<noteq> None}"
  by (simp add: pool_inputs_def)

lemma addUnchecked_anc_result:
  fixes e :: CTxMemPoolEntry
  assumes fin: "finite (dom (mapTx p))" and lc: "links_closed p"
    and fresh: "mapTx p (GetHash (tx e)) = None" and nol: "mapLinks p (GetHash (tx e)) = None"
    and noself: "GetHash (tx e) \<notin> input_hashes e"
  shows "addUnchecked_anc mu p (GetHash (tx e)) e (link_ancestors p (vin (tx e))) f
           = Some (pool_with_entry mu p e)"
proof -
  define h where "h = GetHash (tx e)"
  define Par where "Par = pool_inputs p (vin (tx e))"
  define A where "A = link_ancestors p (vin (tx e))"
  define I where "I = input_hashes e"
  have finI: "finite I" by (simp add: I_def input_hashes_def)
  have finPar: "finite Par" unfolding Par_def by (rule finite_pool_inputs)
  have ParD: "Par \<subseteq> dom (mapTx p)" unfolding Par_def by (rule pool_inputs_in_pool)
  have AD: "A \<subseteq> dom (mapTx p)" unfolding A_def by (rule link_ancestors_in_pool [OF lc])
  have finA: "finite A" by (rule finite_subset [OF AD fin])
  have hA: "h \<notin> A" using AD fresh by (auto simp: h_def)
  have hPar: "h \<notin> Par" using ParD fresh by (auto simp: h_def)
  have hI: "h \<notin> I" using noself by (simp add: h_def I_def)
  define p1 where "p1 = p\<lparr>mapTx := (mapTx p)(h \<mapsto> e),
                           mapLinks := (mapLinks p)(h \<mapsto> \<lparr>parents = {}, children = {}\<rparr>),
                           cachedInnerUsage := cachedInnerUsage p + nUsageSize e\<rparr>"
  define p2 where "p2 = p1\<lparr>mapNextTx := fold (\<lambda>i m. m(prevout (vin (tx e) ! i) \<mapsto> (tx e, i)))
                                            [0 ..< length (vin (tx e))] (mapNextTx p1)\<rparr>"
  define p3 where "p3 = fold (\<lambda>phash q. if mapTx q phash \<noteq> None then UpdateParent mu q h phash True else q)
                          (sorted_list_of_set I) p2"
  have m2: "mapLinks p2 h = Some \<lparr>parents = {}, children = {}\<rparr>" by (simp add: p2_def p1_def)
  have t2: "mapTx p2 = (mapTx p)(h \<mapsto> e)" by (simp add: p2_def p1_def)
  have filt: "set (filter (\<lambda>x. mapTx p2 x \<noteq> None) (sorted_list_of_set I)) = Par"
    using finI hI unfolding t2 Par_def pool_inputs_filter I_def input_hashes_def by auto
  have "distinct (filter (\<lambda>x. mapTx p2 x \<noteq> None) (sorted_list_of_set I))" by simp
  from distinct_card [OF this] filt
  have len: "length (filter (\<lambda>x. mapTx p2 x \<noteq> None) (sorted_list_of_set I)) = card Par" by simp
  have p3: "p3 = p2\<lparr>mapLinks := (mapLinks p2)(h \<mapsto> \<lparr>parents = Par, children = {}\<rparr>),
                    cachedInnerUsage := cachedInnerUsage p2 + muSetNode mu * of_nat (card Par)\<rparr>"
  proof -
    have "p3 = p2\<lparr>mapLinks := (mapLinks p2)(h \<mapsto> \<lparr>parents = {}, children = {}\<rparr>
                        \<lparr>parents := parents \<lparr>parents = {}, children = {}\<rparr>
                             \<union> set (filter (\<lambda>x. mapTx p2 x \<noteq> None) (sorted_list_of_set I))\<rparr>),
         cachedInnerUsage := cachedInnerUsage p2
             + muSetNode mu * of_nat (length (filter (\<lambda>x. mapTx p2 x \<noteq> None) (sorted_list_of_set I)))\<rparr>"
      unfolding p3_def by (rule fold_UpdateParent_add [OF _ m2]) simp_all
    then show ?thesis unfolding filt len by simp
  qed
  have t3: "mapTx p3 = (mapTx p)(h \<mapsto> e)" by (simp add: p3 t2)
  have l3: "\<And>y. y \<noteq> h \<Longrightarrow> links_at p3 y = links_at p y"
    by (simp add: links_at_def p3 p2_def p1_def)
  have gp: "GetMemPoolParents p3 h = Some Par"
    by (simp add: GetMemPoolParents_def t3) (simp add: p3)
  have c3: "\<forall>y \<in> set (sorted_list_of_set Par). h \<notin> children (links_at p3 y)"
  proof
    fix y assume "y \<in> set (sorted_list_of_set Par)"
    then have y: "y \<in> Par" using finPar by simp
    with hPar have yh: "y \<noteq> h" by auto
    from y ParD obtain ey where "mapTx p y = Some ey" by auto
    with lc obtain l where "mapLinks p y = Some l" "children l \<subseteq> dom (mapTx p)"
      unfolding links_closed_def by blast
    with fresh have "h \<notin> children (links_at p y)" by (auto simp: links_at_def h_def)
    with l3 [OF yh] show "h \<notin> children (links_at p3 y)" by simp
  qed
  have s3: "set (sorted_list_of_set Par) \<subseteq> dom (mapTx p3)" using finPar ParD by (auto simp: t3)
  define p3a where "p3a = p3\<lparr>mapLinks := (\<lambda>y. if y \<in> Par
                                then Some ((links_at p3 y)\<lparr>children := insert h (children (links_at p3 y))\<rparr>)
                                else mapLinks p3 y),
              cachedInnerUsage := cachedInnerUsage p3 + muSetNode mu * of_nat (card Par)\<rparr>"
  have uc: "foreach (\<lambda>phash q. if mapTx q phash = None then None
                            else Some (UpdateChild mu q phash h True)) (sorted_list_of_set Par) p3
            = Some p3a"
    using finPar unfolding p3a_def
    by (subst foreach_UpdateChild_add [OF _ s3 c3]) simp_all
  have t3a: "mapTx p3a = (mapTx p)(h \<mapsto> e)" by (simp add: p3a_def t3)
  have sA: "set (sorted_list_of_set A) \<subseteq> dom (mapTx p3a)" using finA AD by (auto simp: t3a)
  define p4 where "p4 = p3a\<lparr>mapTx := (\<lambda>y. if y \<in> A
                               then map_option (\<lambda>u. UpdateState u (1 * nTxSize e) (1 * nFee e) 1) (mapTx p3a y)
                               else mapTx p3a y)\<rparr>"
  have us: "foreach (\<lambda>a q. case mapTx q a of None \<Rightarrow> None
                    | Some u \<Rightarrow> Some (q\<lparr>mapTx := (mapTx q)(a \<mapsto> UpdateState u (1 * nTxSize e) (1 * nFee e) 1)\<rparr>))
              (sorted_list_of_set A) p3a = Some p4"
    using finA unfolding p4_def
    by (subst foreach_UpdateState [OF _ sA]) simp_all
  have ua: "UpdateAncestorsOf mu p3 True h A = Some p4"
    unfolding UpdateAncestorsOf_def by (simp add: gp uc t3a us)
  have TX: "mapTx p4 = mapTx (pool_with_entry mu p e)"
    using hA
    by (auto simp: fun_eq_iff p4_def t3a pool_with_entry_def h_def [symmetric] A_def [symmetric])
  have LK: "mapLinks p4 = mapLinks (pool_with_entry mu p e)"
  proof (rule ext)
    fix y
    show "mapLinks p4 y = mapLinks (pool_with_entry mu p e) y"
    proof (cases "y \<in> Par")
      case True
      with hPar have yh: "y \<noteq> h" by auto
      have "mapLinks p4 y = Some ((links_at p3 y)\<lparr>children := insert h (children (links_at p3 y))\<rparr>)"
        using True by (simp add: p4_def p3a_def)
      also have "\<dots> = mapLinks (pool_with_entry mu p e) y"
        unfolding l3 [OF yh] using True yh
        by (simp add: pool_with_entry_def h_def [symmetric] Par_def [symmetric])
      finally show ?thesis .
    next
      case False
      then have "mapLinks p4 y = mapLinks p3 y" by (simp add: p4_def p3a_def)
      also have "\<dots> = mapLinks (pool_with_entry mu p e) y"
        using False
        by (simp add: p3 p2_def p1_def pool_with_entry_def h_def [symmetric] Par_def [symmetric])
      finally show ?thesis .
    qed
  qed
  have NX: "mapNextTx p4 = mapNextTx (pool_with_entry mu p e)"
    by (simp add: p4_def p3a_def p3 p2_def p1_def pool_with_entry_def)
  have CI: "cachedInnerUsage p4 = cachedInnerUsage (pool_with_entry mu p e)"
    by (simp add: p4_def p3a_def p3 p2_def p1_def pool_with_entry_def Par_def [symmetric])
  have rest: "mapDeltas p4 = mapDeltas p" "totalTxSize p4 = totalTxSize p"
    "nTransactionsUpdated p4 = nTransactionsUpdated p" "CTxMemPool.more p4 = CTxMemPool.more p"
    by (simp_all add: p4_def p3a_def p3 p2_def p1_def)
  have fin: "p4\<lparr>nTransactionsUpdated := nTransactionsUpdated p4 + 1,
                totalTxSize := totalTxSize p4 + nTxSize e\<rparr> = pool_with_entry mu p e"
    by (rule CTxMemPool.equality) (simp_all add: TX LK NX CI rest, simp_all add: pool_with_entry_def)
  have step: "addUnchecked_anc mu p h e A f
      = UpdateAncestorsOf mu p3 True h A \<bind>
          (\<lambda>p4. Some (p4\<lparr>nTransactionsUpdated := nTransactionsUpdated p4 + 1,
                            totalTxSize := totalTxSize p4 + nTxSize e\<rparr>))"
    unfolding addUnchecked_anc_def p3_def p2_def p1_def I_def input_hashes_def
    using fresh nol by (simp add: Let_def h_def [symmetric])
  have "addUnchecked_anc mu p h e A f = Some (pool_with_entry mu p e)"
    unfolding step ua using fin by simp
  then show ?thesis unfolding h_def A_def .
qed

lemma UpdateState_undo:
  assumes "nCountWithDescendants u \<noteq> - 1"
  shows "UpdateState (UpdateState u s f 1) (- 1 * s) (- 1 * f) (- 1) = u"
proof (cases "IsDirty u")
  case True
  then show ?thesis by (simp add: UpdateState_def)
next
  case False
  from assms have "nCountWithDescendants u + 1 \<noteq> 0"
    by (metis add.commute add_eq_0_iff)
  with False show ?thesis by (simp add: UpdateState_def IsDirty_def)
qed

lemma pool_with_entry_facts:
  fixes e :: CTxMemPoolEntry
  assumes fin: "finite (dom (mapTx p))" and lc: "links_closed p"
    and fresh: "mapTx p (GetHash (tx e)) = None" and nol: "mapLinks p (GetHash (tx e)) = None"
    and noself: "GetHash (tx e) \<notin> input_hashes e"
  shows "mapTx (pool_with_entry mu p e) (GetHash (tx e)) = Some e"
    and "dom (mapTx (pool_with_entry mu p e)) = insert (GetHash (tx e)) (dom (mapTx p))"
    and "mapLinks (pool_with_entry mu p e) (GetHash (tx e))
           = Some \<lparr>parents = pool_inputs p (vin (tx e)), children = {}\<rparr>"
    and "\<And>y. y \<noteq> GetHash (tx e) \<Longrightarrow>
           map_option parents (mapLinks (pool_with_entry mu p e) y) = map_option parents (mapLinks p y)"
    and "pool_inputs (pool_with_entry mu p e) (vin (tx e)) = pool_inputs p (vin (tx e))"
    and "links_closed (pool_with_entry mu p e)"
proof -
  define h where "h = GetHash (tx e)"
  define q where "q = pool_with_entry mu p e"
  define Par where "Par = pool_inputs p (vin (tx e))"
  have ParD: "Par \<subseteq> dom (mapTx p)" unfolding Par_def by (rule pool_inputs_in_pool)
  have lk: "\<And>y. y \<in> dom (mapTx p) \<Longrightarrow> \<exists>l. mapLinks p y = Some l \<and> parents l \<subseteq> dom (mapTx p)
                      \<and> children l \<subseteq> dom (mapTx p)"
    using lc unfolding links_closed_def by blast
  show t: "mapTx (pool_with_entry mu p e) (GetHash (tx e)) = Some e"
    by (simp add: pool_with_entry_def)
  show d: "dom (mapTx (pool_with_entry mu p e)) = insert (GetHash (tx e)) (dom (mapTx p))"
    by (auto simp: pool_with_entry_def dom_def split: if_split_asm)
  show m: "mapLinks (pool_with_entry mu p e) (GetHash (tx e))
           = Some \<lparr>parents = pool_inputs p (vin (tx e)), children = {}\<rparr>"
    by (simp add: pool_with_entry_def)
  show par: "\<And>y. y \<noteq> GetHash (tx e) \<Longrightarrow>
           map_option parents (mapLinks (pool_with_entry mu p e) y) = map_option parents (mapLinks p y)"
  proof -
    fix y assume yh: "y \<noteq> GetHash (tx e)"
    show "map_option parents (mapLinks (pool_with_entry mu p e) y) = map_option parents (mapLinks p y)"
    proof (cases "y \<in> Par")
      case True
      with ParD lk obtain l where "mapLinks p y = Some l" by blast
      with True yh show ?thesis
        by (simp add: pool_with_entry_def links_at_def Par_def [symmetric])
    next
      case False
      with yh show ?thesis by (simp add: pool_with_entry_def Par_def [symmetric])
    qed
  qed
  show "pool_inputs (pool_with_entry mu p e) (vin (tx e)) = pool_inputs p (vin (tx e))"
    using noself fresh unfolding pool_inputs_def input_hashes_def
    by (auto simp: pool_with_entry_def split: if_split_asm)
  show "links_closed (pool_with_entry mu p e)"
    unfolding links_closed_def
  proof (intro allI impI)
    fix x and ex :: CTxMemPoolEntry
    assume "mapTx (pool_with_entry mu p e) x = Some ex"
    then have xd: "x \<in> insert (GetHash (tx e)) (dom (mapTx p))" using d by blast
    show "\<exists>l. mapLinks (pool_with_entry mu p e) x = Some l \<and>
              parents l \<subseteq> dom (mapTx (pool_with_entry mu p e)) \<and>
              children l \<subseteq> dom (mapTx (pool_with_entry mu p e))"
    proof (cases "x = GetHash (tx e)")
      case True
      with ParD show ?thesis unfolding d by (auto simp: m Par_def)
    next
      case False
      with xd lk obtain l where l: "mapLinks p x = Some l" "parents l \<subseteq> dom (mapTx p)"
        "children l \<subseteq> dom (mapTx p)" by blast
      show ?thesis
      proof (cases "x \<in> Par")
        case True
        with False l show ?thesis unfolding d
          by (auto simp: pool_with_entry_def links_at_def Par_def [symmetric])
      next
        case notpar: False
        with False l show ?thesis unfolding d
          by (auto simp: pool_with_entry_def Par_def [symmetric])
      qed
    qed
  qed
qed

lemma link_ancestors_cong:
  assumes i: "pool_inputs q ins = pool_inputs p ins"
    and l: "\<And>y. y \<in> link_ancestors p ins \<Longrightarrow>
               map_option parents (mapLinks q y) = map_option parents (mapLinks p y)"
  shows "link_ancestors p ins \<subseteq> link_ancestors q ins"
proof
  fix h assume "h \<in> link_ancestors p ins"
  then show "h \<in> link_ancestors q ins"
  proof (induction rule: link_ancestors.induct)
    case (direct h)
    with i show ?case by (auto intro: link_ancestors.direct)
  next
    case (step c l' h)
    from l [OF step(1)] step(2) obtain l2 where "mapLinks q c = Some l2" "parents l2 = parents l'"
      by (cases "mapLinks q c") auto
    with step show ?case by (metis link_ancestors.step)
  qed
qed

subsection \<open>The pool after the removal\<close>

lemma remove_after_add:
  fixes e :: CTxMemPoolEntry
  assumes fin: "finite (dom (mapTx p))" and lc: "links_closed p"
    and fresh: "mapTx p (GetHash (tx e)) = None" and nol: "mapLinks p (GetHash (tx e)) = None"
    and noself: "GetHash (tx e) \<notin> input_hashes e"
    and unspent: "\<forall>txin \<in> set (vin (tx e)). mapNextTx p (prevout txin) = None"
    and cnt: "\<forall>x ex. mapTx p x = Some ex \<longrightarrow> nCountWithDescendants ex \<noteq> - 1"
  shows "remove mu (pool_with_entry mu p e) (tx e) removed True
           = Some (p\<lparr>nTransactionsUpdated := nTransactionsUpdated p + 2\<rparr>, removed @ [tx e])"
proof -
  define h where "h = GetHash (tx e)"
  define q where "q = pool_with_entry mu p e"
  define Par where "Par = pool_inputs p (vin (tx e))"
  define A where "A = link_ancestors p (vin (tx e))"
  note F = pool_with_entry_facts [where mu = mu, OF fin lc fresh nol noself, folded q_def h_def Par_def]
  have tq: "mapTx q h = Some e" by (rule F(1))
  have dq: "dom (mapTx q) = insert h (dom (mapTx p))" by (rule F(2))
  have mq: "mapLinks q h = Some \<lparr>parents = Par, children = {}\<rparr>" by (rule F(3))
  have pq: "\<And>y. y \<noteq> h \<Longrightarrow> map_option parents (mapLinks q y) = map_option parents (mapLinks p y)"
    by (rule F(4))
  have iq: "pool_inputs q (vin (tx e)) = Par" by (rule F(5))
  have lcq: "links_closed q" by (rule F(6))
  have finq: "finite (dom (mapTx q))" unfolding dq using fin by simp
  have finPar: "finite Par" unfolding Par_def by (rule finite_pool_inputs)
  have ParD: "Par \<subseteq> dom (mapTx p)" unfolding Par_def by (rule pool_inputs_in_pool)
  have AD: "A \<subseteq> dom (mapTx p)" unfolding A_def by (rule link_ancestors_in_pool [OF lc])
  have AqD: "link_ancestors q (vin (tx e)) \<subseteq> dom (mapTx q)" by (rule link_ancestors_in_pool [OF lcq])
  have finA: "finite A" by (rule finite_subset [OF AD fin])
  have hA: "h \<notin> A" using AD fresh by (auto simp: h_def)
  have hPar: "h \<notin> Par" using ParD fresh by (auto simp: h_def)
  have ParA: "Par \<subseteq> A" unfolding Par_def A_def by (auto intro: link_ancestors.direct)
  \<comment> \<open>the ancestors are the same in the two pools\<close>
  have sub1: "A \<subseteq> link_ancestors q (vin (tx e))"
    unfolding A_def
  proof (rule link_ancestors_cong)
    show "pool_inputs q (vin (tx e)) = pool_inputs p (vin (tx e))" using iq Par_def by simp
  next
    fix y assume "y \<in> link_ancestors p (vin (tx e))"
    with hA have "y \<noteq> h" unfolding A_def by auto
    then show "map_option parents (mapLinks q y) = map_option parents (mapLinks p y)" by (rule pq)
  qed
  have sub2: "link_ancestors q (vin (tx e)) \<subseteq> A"
  proof (rule link_ancestors_least)
    show "pool_inputs q (vin (tx e)) \<subseteq> A" using iq ParA by simp
  next
    show "link_parents q A \<subseteq> A"
    proof
      fix z assume "z \<in> link_parents q A"
      then obtain c l where c: "c \<in> A" and l: "mapLinks q c = Some l" and z: "z \<in> parents l"
        unfolding link_parents_def by (auto split: option.split_asm)
      from c hA have "c \<noteq> h" by auto
      from pq [OF this] l obtain l2 where "mapLinks p c = Some l2" "parents l2 = parents l"
        by (cases "mapLinks p c") auto
      with c z show "z \<in> A" unfolding A_def by (metis link_ancestors.step)
    qed
  qed
  have Aq: "link_ancestors q (vin (tx e)) = A" using sub1 sub2 by auto
  have calc: "CalculateMemPoolAncestors q e {} nNoLimit nNoLimit nNoLimit nNoLimit = Some (None, A)"
    using CalculateMemPoolAncestors_nolimit [OF finq lcq, of e] Aq by simp
  \<comment> \<open>the descendants\<close>
  have gc: "GetMemPoolChildren q h = Some {}" by (simp add: GetMemPoolChildren_def tq mq)
  have desc: "CalculateDescendants q h {} = Some {h}"
    apply (simp add: CalculateDescendants_def)
    apply (subst descendants_loop.simps)
    apply (simp add: stage_children_def gc)
    apply (subst descendants_loop.simps)
    apply simp
    done
  \<comment> \<open>the update of the ancestors\<close>
  have gp: "GetMemPoolParents q h = Some Par" by (simp add: GetMemPoolParents_def tq mq)
  have laq: "\<And>y. y \<in> Par \<Longrightarrow> links_at q y = (links_at p y)\<lparr>children := insert h (children (links_at p y))\<rparr>"
    using hPar by (auto simp: links_at_def q_def pool_with_entry_def h_def Par_def)
  have sP: "set (sorted_list_of_set Par) \<subseteq> dom (mapTx q)" using finPar ParD dq by auto
  have cP: "\<forall>y \<in> set (sorted_list_of_set Par). h \<in> children (links_at q y)"
    using finPar laq by simp
  define r1 where "r1 = q\<lparr>mapLinks := (\<lambda>y. if y \<in> Par
                                then Some ((links_at q y)\<lparr>children := children (links_at q y) - {h}\<rparr>)
                                else mapLinks q y),
              cachedInnerUsage := cachedInnerUsage q - muSetNode mu * of_nat (card Par)\<rparr>"
  have uc: "foreach (\<lambda>phash q. if mapTx q phash = None then None
                            else Some (UpdateChild mu q phash h False)) (sorted_list_of_set Par) q
            = Some r1"
    using finPar unfolding r1_def
    by (subst foreach_UpdateChild_remove [OF _ sP cP]) simp_all
  have t1: "mapTx r1 = mapTx q" by (simp add: r1_def)
  have sA: "set (sorted_list_of_set A) \<subseteq> dom (mapTx r1)" using finA AD dq by (auto simp: t1)
  define r2 where "r2 = r1\<lparr>mapTx := (\<lambda>y. if y \<in> A
                               then map_option (\<lambda>u. UpdateState u (- 1 * nTxSize e) (- 1 * nFee e) (- 1)) (mapTx r1 y)
                               else mapTx r1 y)\<rparr>"
  have us: "foreach (\<lambda>a q. case mapTx q a of None \<Rightarrow> None
                    | Some u \<Rightarrow> Some (q\<lparr>mapTx := (mapTx q)(a \<mapsto> UpdateState u (- 1 * nTxSize e) (- 1 * nFee e) (- 1))\<rparr>))
              (sorted_list_of_set A) r1 = Some r2"
    using finA unfolding r2_def
    by (subst foreach_UpdateState [OF _ sA]) simp_all
  have ua: "UpdateAncestorsOf mu q False h A = Some r2"
    unfolding UpdateAncestorsOf_def by (simp add: gp uc t1 tq us)
  have t2h: "mapTx r2 h = Some e" using hA by (simp add: r2_def t1 tq)
  have m2h: "mapLinks r2 h = Some \<lparr>parents = Par, children = {}\<rparr>" using hPar by (simp add: r2_def r1_def mq)
  have gc2: "GetMemPoolChildren r2 h = Some {}" by (simp add: GetMemPoolChildren_def t2h m2h)
  have ucr: "UpdateChildrenForRemoval mu r2 h = Some r2"
    by (simp add: UpdateChildrenForRemoval_def gc2)
  have ufr: "UpdateForRemoveFromMempool mu q {h} = Some r2"
    by (simp add: UpdateForRemoveFromMempool_def tq calc ua ucr)
  \<comment> \<open>the removal proper\<close>
  define r3 where "r3 = r2\<lparr>mapNextTx := fold (\<lambda>txin m. m(prevout txin := None)) (vin (tx e)) (mapNextTx r2),
               totalTxSize := totalTxSize r2 - nTxSize e,
               cachedInnerUsage := cachedInnerUsage r2 - nUsageSize e
                   - (DynamicUsage_set mu (parents (links_at r2 h))
                      + DynamicUsage_set mu (children (links_at r2 h))),
               mapLinks := (mapLinks r2)(h := None),
               mapTx := (mapTx r2)(h := None),
               nTransactionsUpdated := nTransactionsUpdated r2 + 1\<rparr>"
  have ru: "removeUnchecked mu r2 h = Some r3"
    by (simp add: removeUnchecked_def t2h r3_def)
  have TX: "mapTx r3 = mapTx p"
  proof (rule ext)
    fix y
    show "mapTx r3 y = mapTx p y"
    proof (cases "y = h")
      case True
      with fresh show ?thesis by (simp add: r3_def h_def)
    next
      case yh: False
      show ?thesis
      proof (cases "y \<in> A")
        case True
        with AD obtain u where u: "mapTx p y = Some u" by auto
        with cnt have c: "nCountWithDescendants u \<noteq> - 1" by blast
        have "mapTx q y = Some (UpdateState u (nTxSize e) (nFee e) 1)"
          using True yh u by (simp add: q_def pool_with_entry_def h_def [symmetric] A_def [symmetric])
        then have "mapTx r3 y = Some (UpdateState (UpdateState u (nTxSize e) (nFee e) 1)
                                        (- 1 * nTxSize e) (- 1 * nFee e) (- 1))"
          using True yh by (simp add: r3_def r2_def t1)
        with UpdateState_undo [OF c] u show ?thesis by simp
      next
        case False
        with yh show ?thesis
          by (simp add: r3_def r2_def t1 q_def pool_with_entry_def h_def [symmetric] A_def [symmetric])
      qed
    qed
  qed
  have LK: "mapLinks r3 = mapLinks p"
  proof (rule ext)
    fix y
    show "mapLinks r3 y = mapLinks p y"
    proof (cases "y = h")
      case True
      with nol show ?thesis by (simp add: r3_def h_def)
    next
      case yh: False
      show ?thesis
      proof (cases "y \<in> Par")
        case True
        with ParD obtain ey where "mapTx p y = Some ey" by auto
        with lc obtain l where l: "mapLinks p y = Some l" and cl: "children l \<subseteq> dom (mapTx p)"
          unfolding links_closed_def by blast
        from cl fresh have hl: "h \<notin> children l" by (auto simp: h_def)
        have "mapLinks r3 y = Some ((links_at q y)\<lparr>children := children (links_at q y) - {h}\<rparr>)"
          using True yh by (simp add: r3_def r2_def r1_def)
        also have "\<dots> = Some l"
          unfolding laq [OF True] using l hl by (simp add: links_at_def)
        finally show ?thesis using l by simp
      next
        case False
        with yh show ?thesis
          by (simp add: r3_def r2_def r1_def q_def pool_with_entry_def h_def [symmetric] Par_def [symmetric])
      qed
    qed
  qed
  have NX: "mapNextTx r3 = mapNextTx p"
    using spend_then_erase [OF unspent, of "tx e"]
    by (simp add: r3_def r2_def r1_def q_def pool_with_entry_def)
  have la2: "links_at r2 h = \<lparr>parents = Par, children = {}\<rparr>" by (simp add: links_at_def m2h)
  have CI: "cachedInnerUsage r3 = cachedInnerUsage p"
    by (simp add: r3_def la2 DynamicUsage_set_def)
       (simp add: r2_def r1_def q_def pool_with_entry_def Par_def [symmetric])
  have rest: "mapDeltas r3 = mapDeltas p" "totalTxSize r3 = totalTxSize p"
    "nTransactionsUpdated r3 = nTransactionsUpdated p + 2" "CTxMemPool.more r3 = CTxMemPool.more p"
    by (simp_all add: r3_def r2_def r1_def q_def pool_with_entry_def)
  have r3: "r3 = p\<lparr>nTransactionsUpdated := nTransactionsUpdated p + 2\<rparr>"
    by (rule CTxMemPool.equality) (simp_all add: TX LK NX CI rest)
  have rs: "RemoveStaged mu q {h} = Some r3"
    by (simp add: RemoveStaged_def ufr ru)
  have "remove mu q (tx e) removed True = Some (r3, removed @ [tx e])"
    unfolding remove_def
    by (simp add: h_def [symmetric] tq desc rs Let_def)
  then show ?thesis unfolding q_def r3 .
qed

subsection \<open>The round trip\<close>

lemma calc_A_B_nolimit:
  "CalculateMemPoolAncestors poolA entryB {} nNoLimit nNoLimit nNoLimit nNoLimit = Some (None, {7})"
  apply (simp add: CalculateMemPoolAncestors_def entryB_def mkEntry_def txB_def mapTx_A nNoLimit_max)
  apply (subst ancestors_loop.simps)
  apply (simp add: mapTx_A entryA_def mkEntry_def GetMemPoolParents_def nNoLimit_max)
  apply (simp add: poolA_def)
  apply (subst ancestors_loop.simps)
  apply simp
  done

lemma add_A_B: "addUnchecked mu0 poolA 8 entryB True = Some poolAB"
  apply (simp add: addUnchecked_def calc_A_B_nolimit)
  apply (simp add: addUnchecked_anc_def Let_def entryB_def [THEN arg_cong [where f = tx]] mkEntry_def
      txB_def poolA_def)
  apply (simp add: UpdateParent_def links_at_def UpdateAncestorsOf_def GetMemPoolParents_def
      UpdateChild_def Let_def)
  apply (simp add: poolAB_def UpdateState_def IsDirty_def entryA_def entryB_def mkEntry_def mu0_def txB_def)
  apply (auto simp: fun_eq_iff)
  done

lemma addUnchecked_result:
  fixes e :: CTxMemPoolEntry
  assumes fin: "finite (dom (mapTx p))" and lc: "links_closed p"
    and fresh: "mapTx p (GetHash (tx e)) = None" and nol: "mapLinks p (GetHash (tx e)) = None"
    and noself: "GetHash (tx e) \<notin> input_hashes e"
  shows "addUnchecked mu p (GetHash (tx e)) e f = Some (pool_with_entry mu p e)"
  unfolding addUnchecked_def
  by (simp add: CalculateMemPoolAncestors_nolimit [OF fin lc]
        addUnchecked_anc_result [OF fin lc fresh nol noself])

lemma links_closed_A: "links_closed poolA"
  unfolding links_closed_def by (auto simp: poolA_def split: if_split_asm)

lemma links_dom_A: "dom (mapLinks poolA) \<subseteq> dom (mapTx poolA)"
  by (simp add: poolA_def)

lemma fresh_A_B: "mapTx poolA 8 = None"
  by (simp add: mapTx_A)

lemma hash_B: "8 = GetHash (tx entryB)"
  by (simp add: entryB_def mkEntry_def txB_def)

lemma noself_B: "8 \<notin> input_hashes entryB"
  by (simp add: input_hashes_def entryB_def mkEntry_def txB_def)

lemma unspent_A_B: "inputs_unspent poolA entryB"
  by (simp add: inputs_unspent_def entryB_def mkEntry_def txB_def poolA_def)

lemma counts_A: "counts_below_max poolA"
  unfolding counts_below_max_def by (auto simp: mapTx_A entryA_def mkEntry_def split: if_split_asm)

lemma tx_entryB: "tx entryB = txB"
  by (simp add: entryB_def mkEntry_def)

lemma updated_A: "nTransactionsUpdated poolA = 1"
  by (simp add: poolA_def)

text \<open>
  Claim C2. Let the pool be finite, let every entry have its links and let these name
  entries of the pool only, and let the transaction be new to the pool: its id is not a
  key of \<open>mapTx\<close>, it does not spend an output of its own, and no entry of the pool spends
  one of the outpoints it spends. Let no descendant count be at the largest 64-bit value.
  Then \<open>addUnchecked\<close> returns, the recursive \<open>remove\<close> of the transaction from the pool
  it returns reports that one transaction as removed, and the pool it leaves has the
  \<open>mapTx\<close> (so the aggregates of all entries), the \<open>mapNextTx\<close>, the \<open>mapLinks\<close>, the
  \<open>totalTxSize\<close> and the \<open>cachedInnerUsage\<close> of the pool before the two calls, and its
  \<open>mapDeltas\<close>. The last conjunct says what becomes of the one remaining member: the
  update counter \<open>nTransactionsUpdated\<close> is two higher.
\<close>

theorem C2_add_then_remove:
  fixes entry :: CTxMemPoolEntry
  assumes fin: "finite (dom (mapTx p))" and lc: "links_closed p"
    and ld: "dom (mapLinks p) \<subseteq> dom (mapTx p)"
    and hash: "hash = GetHash (tx entry)" and fresh: "mapTx p hash = None"
    and noself: "hash \<notin> input_hashes entry"
    and unspent: "inputs_unspent p entry" and cnt: "counts_below_max p"
  shows "\<exists>p1 p2. addUnchecked mu p hash entry fCurrentEstimate = Some p1 \<and>
           remove mu p1 (tx entry) removed True = Some (p2, removed @ [tx entry]) \<and>
           mapTx p2 = mapTx p \<and> mapNextTx p2 = mapNextTx p \<and> mapLinks p2 = mapLinks p \<and>
           totalTxSize p2 = totalTxSize p \<and> cachedInnerUsage p2 = cachedInnerUsage p \<and>
           mapDeltas p2 = mapDeltas p \<and>
           p2 = p\<lparr>nTransactionsUpdated := nTransactionsUpdated p + 2\<rparr>"
proof -
  from fresh ld have nol: "mapLinks p hash = None" by (auto simp: dom_def)
  note f = fresh [unfolded hash] and n = nol [unfolded hash] and s = noself [unfolded hash]
  have a: "addUnchecked mu p hash entry fCurrentEstimate = Some (pool_with_entry mu p entry)"
    unfolding hash by (rule addUnchecked_result [OF fin lc f n s])
  have r: "remove mu (pool_with_entry mu p entry) (tx entry) removed True
             = Some (p\<lparr>nTransactionsUpdated := nTransactionsUpdated p + 2\<rparr>, removed @ [tx entry])"
    by (rule remove_after_add [OF fin lc f n s unspent [unfolded inputs_unspent_def]
          cnt [unfolded counts_below_max_def]])
  define p2 where "p2 = p\<lparr>nTransactionsUpdated := nTransactionsUpdated p + 2\<rparr>"
  have f2: "mapTx p2 = mapTx p" "mapNextTx p2 = mapNextTx p" "mapLinks p2 = mapLinks p"
    "totalTxSize p2 = totalTxSize p" "cachedInnerUsage p2 = cachedInnerUsage p"
    "mapDeltas p2 = mapDeltas p"
    by (simp_all add: p2_def)
  from a r f2 show ?thesis unfolding p2_def [symmetric] by blast
qed

theorem C2_add_then_remove_witness:
  "finite (dom (mapTx poolA)) \<and> links_closed poolA \<and> dom (mapLinks poolA) \<subseteq> dom (mapTx poolA) \<and>
   8 = GetHash (tx entryB) \<and> mapTx poolA 8 = None \<and> 8 \<notin> input_hashes entryB \<and>
   inputs_unspent poolA entryB \<and> counts_below_max poolA \<and>
   addUnchecked mu0 poolA 8 entryB True = Some poolAB \<and>
   remove mu0 poolAB (tx entryB) [] True
     = Some (poolA\<lparr>nTransactionsUpdated := nTransactionsUpdated poolA + 2\<rparr>, [] @ [tx entryB])"
proof -
  from C2_add_then_remove [OF finite_A links_closed_A links_dom_A hash_B fresh_A_B noself_B
      unspent_A_B counts_A, of mu0 True "[]"]
  obtain p1 p2 where a: "addUnchecked mu0 poolA 8 entryB True = Some p1"
    and r: "remove mu0 p1 (tx entryB) [] True = Some (p2, [] @ [tx entryB])"
    and e: "p2 = poolA\<lparr>nTransactionsUpdated := nTransactionsUpdated poolA + 2\<rparr>"
    by blast
  from a add_A_B have "p1 = poolAB" by simp
  with r e have r': "remove mu0 poolAB (tx entryB) [] True
              = Some (poolA\<lparr>nTransactionsUpdated := nTransactionsUpdated poolA + 2\<rparr>, [] @ [tx entryB])"
    by simp
  show ?thesis
    by (intro conjI) (rule finite_A links_closed_A links_dom_A hash_B fresh_A_B noself_B
          unspent_A_B counts_A add_A_B r')+
qed

text \<open>
  Each of the two calls increments the update counter. On the sample pool it is 1 before
  the calls and 3 after them.
\<close>

lemma update_counter_A_B:
  "addUnchecked mu0 poolA 8 entryB True = Some poolAB \<and>
   remove mu0 poolAB txB [] True = Some (poolA\<lparr>nTransactionsUpdated := 3\<rparr>, [txB]) \<and>
   nTransactionsUpdated poolA = 1"
proof -
  have n: "mapLinks poolA (GetHash (tx entryB)) = None" by (simp add: poolA_def hash_B [symmetric])
  note f = fresh_A_B [unfolded hash_B] and s = noself_B [unfolded hash_B]
  have "Some (pool_with_entry mu0 poolA entryB) = Some poolAB"
    using addUnchecked_result [OF finite_A links_closed_A f n s, of mu0 True] add_A_B
    by (simp add: hash_B [symmetric])
  then have e: "pool_with_entry mu0 poolA entryB = poolAB" by simp
  have r: "remove mu0 poolAB txB [] True = Some (poolA\<lparr>nTransactionsUpdated := 3\<rparr>, [txB])"
    using remove_after_add [OF finite_A links_closed_A f n s unspent_A_B [unfolded inputs_unspent_def]
          counts_A [unfolded counts_below_max_def], of mu0 "[]"]
    unfolding e tx_entryB updated_A by simp
  show ?thesis
    by (intro conjI) (rule add_A_B r updated_A)+
qed

section \<open>The pending loop of the sanity check\<close>

subsection \<open>The pending loop returns\<close>

lemma tri_le_square: "tri n \<le> n * n"
  by (induction n) auto

lemma unat_of_nat_le: "unat (of_nat m :: 32 word) \<le> m"
  by (simp add: unat_of_nat)

lemma requeue_phase:
  "\<forall>x \<in> set pre. \<not> HaveInputs v (tx x) \<Longrightarrow> s \<le> length post \<Longrightarrow>
     check_pending CI (pre @ e # post) (of_nat s) v it
       = check_pending CI (e # post @ pre) (of_nat (s + length pre)) v (it + length pre)"
proof (induction pre arbitrary: s post it)
  case Nil
  then show ?case by simp
next
  case (Cons x pre)
  from Cons.prems have nx: "\<not> HaveInputs v (tx x)" and np: "\<forall>y \<in> set pre. \<not> HaveInputs v (tx y)"
    by simp_all
  have w: "(of_nat s + 1 :: 32 word) = of_nat (Suc s)" by simp
  have "unat (of_nat (Suc s) :: 32 word) \<le> Suc s" by (rule unat_of_nat_le)
  with Cons.prems(2) have a: "unat (of_nat (Suc s) :: 32 word) < length ((pre @ e # post) @ [x])" by simp
  have "check_pending CI ((x # pre) @ e # post) (of_nat s) v it
      = check_pending CI (pre @ e # (post @ [x])) (of_nat (Suc s)) v (it + 1)"
    using nx a by (subst check_pending.simps) (simp add: w del: of_nat_Suc)
  also have "\<dots> = check_pending CI (e # (post @ [x]) @ pre) (of_nat (Suc s + length pre)) v (it + 1 + length pre)"
    using Cons.prems(2) by (intro Cons.IH [OF np]) simp
  finally show ?case by simp
qed

lemma pending_ok_ready:
  assumes ok: "pending_ok ws v" and ne: "ws \<noteq> []"
  shows "\<exists>e \<in> set ws. HaveInputs v (tx e)"
proof -
  from ok obtain rank where r: "ranked rank ws" and res: "inputs_resolve ws v"
    unfolding pending_ok_def by blast
  define R where "R = (\<lambda>e. rank (GetHash (tx e))) ` set ws"
  have "finite R" "R \<noteq> {}" using ne by (simp_all add: R_def)
  then have "Min R \<in> R" and least: "\<And>y. y \<in> R \<Longrightarrow> Min R \<le> y" by simp_all
  then obtain e where e: "e \<in> set ws" and m: "rank (GetHash (tx e)) = Min R" unfolding R_def by auto
  have "HaveInputs v (tx e)"
    unfolding HaveInputs_def
  proof
    fix txin assume t: "txin \<in> set (vin (tx e))"
    show "prevout txin \<in> v"
    proof (rule ccontr)
      assume "prevout txin \<notin> v"
      with res e t obtain e2 where e2: "e2 \<in> set ws" "GetHash (tx e2) = fst (prevout txin)"
        unfolding inputs_resolve_def by blast
      with r e t have "rank (GetHash (tx e2)) < rank (GetHash (tx e))" unfolding ranked_def by blast
      moreover from e2(1) have "Min R \<le> rank (GetHash (tx e2))" by (intro least) (simp add: R_def)
      ultimately show False using m by simp
    qed
  qed
  with e show ?thesis by blast
qed

lemma pending_ok_permute:
  assumes "pending_ok ws v" and "set ws' = set ws" and "distinct ws'"
  shows "pending_ok ws' v"
  using assms unfolding pending_ok_def inputs_resolve_def spends_disjoint_def ranked_def by simp

lemma pending_ok_admit:
  assumes ok: "pending_ok (e # rest) v"
  shows "pending_ok rest (UpdateCoins (tx e) v)"
proof -
  from ok obtain rank where d: "distinct (e # rest)" and res: "inputs_resolve (e # rest) v"
    and sp: "spends_disjoint (e # rest)" and r: "ranked rank (e # rest)"
    unfolding pending_ok_def by blast
  have d': "distinct rest" using d by simp
  have sp': "spends_disjoint rest" using sp unfolding spends_disjoint_def by simp
  have r': "ranked rank rest" using r unfolding ranked_def by simp
  have res': "inputs_resolve rest (UpdateCoins (tx e) v)"
    unfolding inputs_resolve_def
  proof (intro ballI)
    fix e' txin assume e': "e' \<in> set rest" and t: "txin \<in> set (vin (tx e'))"
    from e' d have ne: "e' \<noteq> e" by auto
    from sp e' ne have dj: "prevout ` set (vin (tx e')) \<inter> prevout ` set (vin (tx e)) = {}"
      unfolding spends_disjoint_def by simp
    with t have notspent: "prevout txin \<notin> prevout ` set (vin (tx e))" by blast
    from res e' t consider
        (a) "prevout txin \<in> v"
      | (b) e2 where "e2 \<in> set (e # rest)" "GetHash (tx e2) = fst (prevout txin)"
             "snd (prevout txin) < length (vout (tx e2))"
      unfolding inputs_resolve_def by (metis list.set_intros(2))
    then show "prevout txin \<in> UpdateCoins (tx e) v \<or>
       (\<exists>e2 \<in> set rest. GetHash (tx e2) = fst (prevout txin) \<and>
                          snd (prevout txin) < length (vout (tx e2)))"
    proof cases
      case a
      with notspent show ?thesis by (simp add: UpdateCoins_def)
    next
      case b
      show ?thesis
      proof (cases "e2 = e")
        case True
        with b have "prevout txin = (GetHash (tx e), snd (prevout txin))"
          and "snd (prevout txin) < length (vout (tx e))" by (simp_all add: prod_eq_iff)
        then have "prevout txin \<in> (\<lambda>n. (GetHash (tx e), n)) ` {..< length (vout (tx e))}"
          by (metis imageI lessThan_iff)
        then show ?thesis by (simp add: UpdateCoins_def)
      next
        case False
        with b show ?thesis by auto
      qed
    qed
  qed
  from d' res' sp' r' show ?thesis unfolding pending_ok_def by blast
qed

lemma check_pending_total:
  "pending_ok ws v \<Longrightarrow>
     \<exists>out v' k. check_pending CI ws 0 v it = Some (out, v', it + k) \<and>
        out \<noteq> Some StepsBound \<and> k \<le> tri (length ws)"
proof (induction "length ws" arbitrary: ws v it rule: less_induct)
  case less
  show ?case
  proof (cases "ws = []")
    case True
    then show ?thesis by (subst check_pending.simps) simp
  next
    case False
    from pending_ok_ready [OF less.prems False]
    have "\<exists>x \<in> set ws. HaveInputs v (tx x)" .
    then obtain pre e post where ws: "ws = pre @ e # post" and rdy: "HaveInputs v (tx e)"
      and pre: "\<forall>x \<in> set pre. \<not> HaveInputs v (tx x)"
      by (auto simp: split_list_first_prop_iff)
    define j where "j = length pre"
    define rest where "rest = post @ pre"
    have len: "length ws = Suc (length rest)" by (simp add: ws rest_def)
    have jle: "j \<le> length rest" by (simp add: j_def rest_def)
    from requeue_phase [OF pre, of 0 post CI e it]
    have ph: "check_pending CI ws 0 v it = check_pending CI (e # rest) (of_nat j) v (it + j)"
      by (simp add: ws rest_def j_def)
    have "distinct ws" using less.prems unfolding pending_ok_def by blast
    then have "distinct (e # rest)" by (auto simp: ws rest_def)
    moreover have "set (e # rest) = set ws" by (auto simp: ws rest_def)
    ultimately have ok1: "pending_ok (e # rest) v" by (rule pending_ok_permute [OF less.prems, rotated])
    show ?thesis
    proof (cases "CI (tx e) v")
      case True
      have ad: "check_pending CI (e # rest) (of_nat j) v (it + j)
              = check_pending CI rest 0 (UpdateCoins (tx e) v) (it + j + 1)"
        using rdy True by (subst check_pending.simps) simp
      have "length rest < length ws" by (simp add: len)
      from less.hyps [OF this pending_ok_admit [OF ok1], of "it + j + 1"]
      obtain out v' k where
        k: "check_pending CI rest 0 (UpdateCoins (tx e) v) (it + j + 1) = Some (out, v', it + j + 1 + k)"
        "out \<noteq> Some StepsBound" "k \<le> tri (length rest)" by blast
      have "j + 1 + k \<le> tri (length ws)" using k(3) jle by (simp add: len)
      moreover have "check_pending CI ws 0 v it = Some (out, v', it + (j + 1 + k))"
        using ph ad k(1) by (simp add: add.assoc)
      ultimately show ?thesis using k(2) by blast
    next
      case False
      have "check_pending CI (e # rest) (of_nat j) v (it + j) = Some (Some InputsInvalid, v, it + (j + 1))"
        using rdy False by (subst check_pending.simps) (simp add: add.assoc)
      moreover have "j + 1 \<le> tri (length ws)" using jle by (simp add: len)
      ultimately show ?thesis using ph by auto
    qed
  qed
qed

subsection \<open>The pending loop on sample entries\<close>

lemma pending_ok_DB: "pending_ok [entryD, entryB] {(7, 0)}"
proof -
  have d: "distinct [entryD, entryB]"
    by (simp add: entryD_def entryB_def mkEntry_def txD_def txB_def)
  have i: "inputs_resolve [entryD, entryB] {(7, 0)}"
    by (simp add: inputs_resolve_def entryD_def entryB_def mkEntry_def txD_def txB_def)
  have s: "spends_disjoint [entryD, entryB]"
    by (simp add: spends_disjoint_def entryD_def entryB_def mkEntry_def txD_def txB_def)
  have r: "ranked (\<lambda>h. h) [entryD, entryB]"
    by (simp add: ranked_def entryD_def entryB_def mkEntry_def txD_def txB_def)
  from d i s r show ?thesis unfolding pending_ok_def by blast
qed

lemma pending_DB:
  "check_pending (\<lambda>t v. True) [entryD, entryB] 0 {(7, 0)} 0 = Some (None, {(11, 0)}, 3)"
  apply (subst check_pending.simps)
  apply (simp add: HaveInputs_def entryD_def [THEN arg_cong [where f = tx]] mkEntry_def txD_def)
  apply (subst check_pending.simps)
  apply (simp add: HaveInputs_def UpdateCoins_def entryB_def [THEN arg_cong [where f = tx]] mkEntry_def txB_def)
  apply (subst check_pending.simps)
  apply (simp add: HaveInputs_def UpdateCoins_def entryD_def [THEN arg_cong [where f = tx]] mkEntry_def txD_def)
  apply (subst check_pending.simps)
  apply (simp add: lessThan_Suc)
  done

lemma pending_D_alone:
  "check_pending (\<lambda>t v. True) [entryD] 0 {(7, 0)} 0 = Some (Some StepsBound, {(7, 0)}, 1)"
  apply (subst check_pending.simps)
  apply (simp add: HaveInputs_def entryD_def [THEN arg_cong [where f = tx]] mkEntry_def txD_def)
  done

text \<open>
  Claim C9. Let the pending entries and the view at the entry of the loop satisfy the
  graph integrity above. Then the loop returns, whatever \<open>CheckInputs\<close> answers; the
  assertion that bounds \<open>stepsSinceLastRemove\<close> by the size of the pending list does not
  fail; and the number of passes through the body is at most the square of the number of
  pending entries.
\<close>

theorem C9_pending_loop_terminates:
  assumes "pending_ok waitingOnDependants mempoolDuplicate"
  shows "\<exists>out view' k.
           check_pending CheckInputs waitingOnDependants 0 mempoolDuplicate 0 = Some (out, view', k) \<and>
           out \<noteq> Some StepsBound \<and> k \<le> (length waitingOnDependants)\<^sup>2"
proof -
  from check_pending_total [OF assms, of CheckInputs 0]
  obtain out v' k where
    "check_pending CheckInputs waitingOnDependants 0 mempoolDuplicate 0 = Some (out, v', k)"
    "out \<noteq> Some StepsBound" "k \<le> tri (length waitingOnDependants)"
    by auto
  moreover have "tri (length waitingOnDependants) \<le> (length waitingOnDependants)\<^sup>2"
    using tri_le_square [of "length waitingOnDependants"] by (simp add: power2_eq_square)
  ultimately show ?thesis by (meson le_trans)
qed

theorem C9_pending_loop_terminates_witness:
  "pending_ok [entryD, entryB] {(7, 0)} \<and>
   check_pending (\<lambda>t v. True) [entryD, entryB] 0 {(7, 0)} 0 = Some (None, {(11, 0)}, 3) \<and>
   None \<noteq> Some StepsBound \<and> (3 :: nat) \<le> (length [entryD, entryB])\<^sup>2"
proof -
  from C9_pending_loop_terminates [OF pending_ok_DB, of "\<lambda>t v. True"]
  obtain out view' k where
    c: "check_pending (\<lambda>t v. True) [entryD, entryB] 0 {(7, 0)} 0 = Some (out, view', k)"
    and o: "out \<noteq> Some StepsBound" and b: "k \<le> (length [entryD, entryB])\<^sup>2"
    by blast
  from c pending_DB have "out = None" "k = 3" by simp_all
  with o b have o': "None \<noteq> Some StepsBound" and b': "(3 :: nat) \<le> (length [entryD, entryB])\<^sup>2"
    by simp_all
  show ?thesis
    by (intro conjI) (rule pending_ok_DB pending_DB o' b')+
qed

section \<open>Short-id collisions in compact blocks\<close>

subsection \<open>The prefilled transactions and the map of short ids\<close>






lemma prefilled_loop_invalid:
  "\<not> prefilled_valid nShort pfs i l \<Longrightarrow> fst (prefilled_loop nShort pfs i l avail) = False"
  by (induction pfs arbitrary: i l avail) (auto simp: Let_def)



subsection \<open>Messages that are rejected as invalid\<close>

lemma InitData_invalid:
  assumes "\<not> message_valid env cmpctblock"
    and "header_IsNull (block_header pdb)" and "txn_available pdb = []"
  shows "\<exists>pdb'. InitData env pdb cmpctblock = Some (READ_STATUS_INVALID, pdb')"
proof (cases "prefilled_valid (length (shorttxids cmpctblock)) (prefilledtxn cmpctblock) 0 (- 1)")
  case True
  with assms(1) show ?thesis by (auto simp: message_valid_def InitData_def)
next
  case False
  from prefilled_loop_invalid [OF False]
  obtain avail where "prefilled_loop (length (shorttxids cmpctblock)) (prefilledtxn cmpctblock) 0 (- 1)
       (replicate (length (shorttxids cmpctblock) + length (prefilledtxn cmpctblock)) None) = (False, avail)"
    by (metis fst_conv surj_pair)
  with assms(2,3) show ?thesis by (simp add: InitData_def Let_def)
qed

subsection \<open>The sample message\<close>




lemma init_null_header:
  "InitData env0 pdb0 (cmpct0\<lparr>header := \<lparr>hashPrevBlock = 1, nBits = 0\<rparr>\<rparr>)
     = Some (READ_STATUS_INVALID, pdb0)"
  by (simp add: InitData_def header_IsNull_def)

subsection \<open>Equal short ids\<close>





section \<open>Block assembly below the minimum fee\<close>

subsection \<open>Packages below the minimum fee\<close>

lemma addPackageTxs_below_min:
  assumes below: "\<forall>h \<in> set (byAncestorScore env). \<forall>e. poolTx env h = Some e
                    \<longrightarrow> GetModFeesWithAncestors e < minFee env (GetSizeWithAncestors e)"
    and idx: "set (byAncestorScore env) \<subseteq> dom (poolTx env)"
    and nb: "inBlock workState = {}"
  shows "addPackageTxs env workState nPackagesSelected nDescendantsUpdated True []
           = Some (workState, nPackagesSelected, nDescendantsUpdated, [])"
proof (cases "byAncestorScore env")
  case Nil
  then show ?thesis
    by (simp add: addPackageTxs_def addPackageTxs_loop.simps)
next
  case (Cons m rest)
  with idx obtain e where e: "poolTx env m = Some e" by auto
  with below Cons have f: "GetModFeesWithAncestors e < minFee env (GetSizeWithAncestors e)" by simp
  have skip: "SkipMapTxEntry env workState m [] {} False = Some False"
    by (simp add: SkipMapTxEntry_def e nb modified_find_def)
  have "addPackageTxs_pass env True (m # rest, [], {}, 0, workState, nPackagesSelected, nDescendantsUpdated)
          = Some (Inl (workState, nPackagesSelected, nDescendantsUpdated, []))"
    by (simp add: addPackageTxs_pass_def skip e nb f Let_def)
  then show ?thesis
    by (simp add: addPackageTxs_def Cons addPackageTxs_loop.simps)
qed

text \<open>
  Claim C5. In a pool in which the package fees of every entry are below
  \<open>blockMinFeeRate.GetFee\<close> of the package size, \<open>addPackageTxs\<close> returns at the first entry
  of the \<open>ancestor_score\<close> index without adding anything, and \<open>CreateNewBlock\<close> hands the
  block with the coinbase alone to \<open>TestBlockValidity\<close>: it returns the template with that
  one transaction, fees 0, or throws where \<open>TestBlockValidity\<close> rejects that block. The
  hypothesis compares fees; a minimum fee rate above the rate of every entry does not
  imply it, as the last subsection shows.
\<close>

theorem C5_below_min_fee_only_coinbase:
  assumes "\<forall>h \<in> set (byAncestorScore env). \<forall>e. poolTx env h = Some e
             \<longrightarrow> GetModFeesWithAncestors e < minFee env (GetSizeWithAncestors e)"
    and "set (byAncestorScore env) \<subseteq> dom (poolTx env)"
  shows "CreateNewBlock env =
           (if TestBlockValidity env [Some (CreateNewCoinbase env 0)]
            then Some (Inr \<lparr>block_vtx = [Some (CreateNewCoinbase env 0)], template_vTxFees = [0],
                            template_vTxSigOpsCost = [4 * GetLegacySigOpCount env (CreateNewCoinbase env 0)]\<rparr>)
            else Some (Inl TestBlockValidity_failed))"
  by (simp add: CreateNewBlock_def addPackageTxs_below_min [OF assms] Let_def)

theorem C5_below_min_fee_only_coinbase_witness:
  "GetModFeesWithAncestors viewA < minFee minerEnv0 (GetSizeWithAncestors viewA) \<and>
   set (byAncestorScore minerEnv0) \<subseteq> dom (poolTx minerEnv0) \<and>
   CreateNewBlock minerEnv0 =
     Some (Inr \<lparr>block_vtx = [Some \<lparr>GetHash = 99, vin = [\<lparr>prevout = (0, 4294967295)\<rparr>],
                                    vout = [\<lparr>nValue = 1250000000\<rparr>]\<rparr>],
                template_vTxFees = [0], template_vTxSigOpsCost = [0]\<rparr>)"
proof -
  have b: "\<forall>h \<in> set (byAncestorScore minerEnv0). \<forall>e. poolTx minerEnv0 h = Some e
             \<longrightarrow> GetModFeesWithAncestors e < minFee minerEnv0 (GetSizeWithAncestors e)"
    by (simp add: minerEnv0_def viewA_def)
  have f: "GetModFeesWithAncestors viewA < minFee minerEnv0 (GetSizeWithAncestors viewA)"
    by (simp add: minerEnv0_def viewA_def)
  have i: "set (byAncestorScore minerEnv0) \<subseteq> dom (poolTx minerEnv0)"
    by (simp add: minerEnv0_def)
  have "CreateNewBlock minerEnv0 =
     Some (Inr \<lparr>block_vtx = [Some \<lparr>GetHash = 99, vin = [\<lparr>prevout = (0, 4294967295)\<rparr>],
                                    vout = [\<lparr>nValue = 1250000000\<rparr>]\<rparr>],
                template_vTxFees = [0], template_vTxSigOpsCost = [0]\<rparr>)"
    using C5_below_min_fee_only_coinbase [OF b i]
    by (simp add: CreateNewCoinbase_def minerEnv0_def)
  with f i show ?thesis by blast
qed

subsection \<open>A minimum fee rate just above the rate of an entry\<close>

text \<open>
  A package is below the minimum fee where the minimum fee rate times the size reaches
  1000 times one more than the fees of the package.
\<close>

lemma fee_for_above:
  assumes "(fees + 1) * 1000 \<le> fee_per_kB * uint nSize"
  shows "fees < fee_for fee_per_kB nSize"
proof (cases "fee_per_kB * uint nSize < 0")
  case True
  with assms have "fees < 0" by simp
  with True show ?thesis by (simp add: fee_for_def)
next
  case False
  from assms have "(fees + 1) * 1000 div 1000 \<le> fee_per_kB * uint nSize div 1000"
    by (rule zdiv_mono1) simp
  then have "fees + 1 \<le> fee_per_kB * uint nSize div 1000" by simp
  with False show ?thesis by (simp add: fee_for_def)
qed

lemma pass_L:
  "addPackageTxs_pass minerEnv1 True
      ([7], [], {}, 0,
       \<lparr>vtx = [None], vTxFees = [- 1], vTxSigOpsCost = [- 1], nBlockSize = 1000, nBlockWeight = 4000,
        nBlockTx = 0, nBlockSigOpsCost = 400, nFees = 0, inBlock = {}\<rparr>, 0, 0)
   = Some (Inr ([], [], {}, 0,
       \<lparr>vtx = [None, Some txA], vTxFees = [- 1, 250], vTxSigOpsCost = [- 1, 4], nBlockSize = 1250,
        nBlockWeight = 5000, nBlockTx = 1, nBlockSigOpsCost = 404, nFees = 250, inBlock = {7}\<rparr>, 1, 0))"
  apply (simp add: addPackageTxs_pass_def SkipMapTxEntry_def modified_find_def minerEnv1_def minerEnv0_def
      Let_def)
  apply (simp add: viewL_def fee_for_def TestPackage_def WITNESS_SCALE_FACTOR_def onlyUnconfirmed_def
      TestPackageTransactions_def SortForBlock_def AddToBlock_def modified_erase_def
      UpdatePackagesForAdded_def)
  done

lemma block_L:
  "CreateNewBlock minerEnv1 =
     Some (Inr \<lparr>block_vtx = [Some \<lparr>GetHash = 99, vin = [\<lparr>prevout = (0, 4294967295)\<rparr>],
                                    vout = [\<lparr>nValue = 1250000250\<rparr>]\<rparr>, Some txA],
                template_vTxFees = [- 250, 250], template_vTxSigOpsCost = [0, 4]\<rparr>)"
proof -
  have i: "initBlockSize minerEnv1 = 1000" "initBlockWeight minerEnv1 = 4000"
    "initBlockSigOpsCost minerEnv1 = 400" "byAncestorScore minerEnv1 = [7]"
    by (simp_all add: minerEnv1_def minerEnv0_def)
  have a: "addPackageTxs minerEnv1
       \<lparr>vtx = [None], vTxFees = [- 1], vTxSigOpsCost = [- 1], nBlockSize = 1000, nBlockWeight = 4000,
        nBlockTx = 0, nBlockSigOpsCost = 400, nFees = 0, inBlock = {}\<rparr> 0 0 True []
     = Some (\<lparr>vtx = [None, Some txA], vTxFees = [- 1, 250], vTxSigOpsCost = [- 1, 4], nBlockSize = 1250,
        nBlockWeight = 5000, nBlockTx = 1, nBlockSigOpsCost = 404, nFees = 250, inBlock = {7}\<rparr>, 1, 0, [])"
    unfolding addPackageTxs_def i
    apply (subst addPackageTxs_loop.simps)
    apply (simp add: pass_L)
    apply (subst addPackageTxs_loop.simps)
    apply simp
    done
  show ?thesis
    unfolding CreateNewBlock_def i
    by (simp add: a Let_def) (simp add: CreateNewCoinbase_def minerEnv1_def minerEnv0_def)
qed

lemma rates_L:
  "fee_rate (GetModifiedFee viewL) (GetTxSize viewL) = 1000"
  "fee_rate (GetModFeesWithAncestors viewL) (GetSizeWithAncestors viewL) = 1000"
  "fee_for 1001 (GetSizeWithAncestors viewL) = 250"
  by (simp_all add: fee_rate_def fee_for_def viewL_def)

lemma env_L:
  "minFee minerEnv1 = fee_for 1001" "byAncestorScore minerEnv1 = [7]" "poolTx minerEnv1 7 = Some viewL"
  by (simp_all add: minerEnv1_def minerEnv0_def)

text \<open>
  The minimum fee rate of 1001 is above the rate 1000 of the only entry, but the fee of
  1001 per 1000 bytes for the 250 bytes of the entry truncates to 250, and 250 is not below
  250: the entry is added and the template holds it beside the coinbase.
\<close>

theorem C5_rate_above_counterexample:
  "minFee minerEnv1 = fee_for 1001 \<and> byAncestorScore minerEnv1 = [7] \<and>
   poolTx minerEnv1 7 = Some viewL \<and>
   fee_rate (GetModifiedFee viewL) (GetTxSize viewL) = 1000 \<and>
   fee_rate (GetModFeesWithAncestors viewL) (GetSizeWithAncestors viewL) = 1000 \<and>
   (1000 :: CAmount) < 1001 \<and>
   CreateNewBlock minerEnv1 =
     Some (Inr \<lparr>block_vtx = [Some \<lparr>GetHash = 99, vin = [\<lparr>prevout = (0, 4294967295)\<rparr>],
                                    vout = [\<lparr>nValue = 1250000250\<rparr>]\<rparr>, Some txA],
                template_vTxFees = [- 250, 250], template_vTxSigOpsCost = [0, 4]\<rparr>)"
proof -
  have lt: "(1000 :: CAmount) < 1001" by simp
  show ?thesis
    by (intro conjI) (rule env_L rates_L lt block_L)+
qed

end
